theory Spec2Isabelle
  imports Complex_Main "HOL-Library.AList"
begin

section \<open>Python values, errors and dictionaries\<close>

text \<open>
  The exceptions the two modules can raise. \<open>TypeError\<close> and \<open>ValueError\<close> come from
  the constructors, \<open>KeyError\<close> from \<open>get\<close> (and from \<open>del d[k]\<close> on an absent key),
  \<open>IsEmptyError\<close> from \<open>_DLList.pop_front\<close> / \<open>pop_back\<close>, and \<open>StopIteration\<close> from
  \<open>next(iter(d))\<close> on an empty dictionary.
\<close>

datatype error = TypeError | ValueError | KeyError | IsEmptyError | StopIteration

text \<open>
  The constructor argument is an arbitrary Python object. \<open>bool\<close> is a subclass of
  \<open>int\<close>, so \<open>isinstance(True, int)\<close> holds and \<open>True\<close> compares as \<open>1\<close>.
\<close>

datatype pyobj = PyInt int | PyBool bool | PyFloat real | PyStr string | PyNone

fun as_int :: "pyobj \<Rightarrow> int option" where
  "as_int (PyInt n) = Some n"
| "as_int (PyBool b) = Some (if b then 1 else 0)"
| "as_int (PyFloat x) = None"
| "as_int (PyStr s) = None"
| "as_int PyNone = None"

text \<open>What a call gives back to its caller: a value, \<open>None\<close> (for \<open>put\<close>), or an exception.\<close>

datatype 'v result = Value 'v | NoValue | Raise error

text \<open>
  A Python \<open>dict\<close> keeps insertion order: it is an association list with distinct keys.
  \<open>d[k] = v\<close> is \<^const>\<open>AList.update\<close> (in place for a present key, appended for a new
  one), \<open>d.pop(k)\<close> and \<open>del d[k]\<close> are \<^const>\<open>AList.delete\<close> once the key is known to be
  present, and \<open>d.get(k, _MISSING)\<close> is \<^const>\<open>map_of\<close>.
\<close>

definition dict_del :: "('k \<times> 'a) list \<Rightarrow> 'k \<Rightarrow> error + ('k \<times> 'a) list" where
  "dict_del d k = (case map_of d k of None \<Rightarrow> Inl KeyError | Some _ \<Rightarrow> Inr (AList.delete k d))"

section \<open>The cache of \<open>src/main.py\<close>, on an insertion-ordered dict\<close>

text \<open>
  Both modules call their class \<open>LRUCache\<close>; the names of this one carry \<open>main\<close>. A
  method takes the object and returns what the call gives back together with the object
  after the call.
\<close>

record ('k, 'v) main_LRUCache =
  m_max_size :: int
  m_dict :: "('k \<times> 'v) list"

definition main_init :: "pyobj \<Rightarrow> error + ('k, 'v) main_LRUCache" where
  "main_init c =
     (case as_int c of
        None \<Rightarrow> Inl TypeError
      | Some n \<Rightarrow> if n \<le> 0 then Inl ValueError
                  else Inr \<lparr>m_max_size = n, m_dict = []\<rparr>)"

definition main_full :: "('k, 'v) main_LRUCache \<Rightarrow> bool" where
  "main_full s = (int (length (m_dict s)) \<ge> m_max_size s)"

text \<open>\<open>default_value\<close> is \<open>None\<close> for the sentinel \<open>_MISSING\<close> (no default supplied).\<close>

definition main_get ::
  "('k, 'v) main_LRUCache \<Rightarrow> 'k \<Rightarrow> 'v option \<Rightarrow> 'v result \<times> ('k, 'v) main_LRUCache" where
  "main_get s k default_value =
     (case map_of (m_dict s) k of
        Some v \<Rightarrow> (Value v, s\<lparr>m_dict := AList.update k v (AList.delete k (m_dict s))\<rparr>)
      | None \<Rightarrow> (case default_value of
                   None \<Rightarrow> (Raise KeyError, s)
                 | Some d \<Rightarrow> (Value d, s)))"

definition main_put ::
  "('k, 'v) main_LRUCache \<Rightarrow> 'k \<Rightarrow> 'v \<Rightarrow> 'v result \<times> ('k, 'v) main_LRUCache" where
  "main_put s k v =
     (if main_full s then
        (case m_dict s of
           [] \<Rightarrow> (Raise StopIteration, s)
         | (lru_key, _) # _ \<Rightarrow>
             (NoValue, s\<lparr>m_dict := AList.update k v (AList.delete lru_key (m_dict s))\<rparr>))
      else (NoValue, s\<lparr>m_dict := AList.update k v (m_dict s)\<rparr>))"

section \<open>The cache of \<open>src/dll_lru_cache.py\<close>, on a dict and a doubly linked list\<close>

subsection \<open>Nodes in a store\<close>

text \<open>
  Nodes are objects with identity: a node is an address into the store \<open>heap\<close>, the list
  of all nodes allocated so far, and \<open>_DLListNode(...)\<close> allocates the next address.
  Each node owns its \<open>_Item\<close>, which nothing else refers to, so the item is a field.
  A reference is \<open>Some\<close> address and \<open>None\<close> is Python's \<open>None\<close>. The methods of a node
  (\<open>eject\<close>, here \<open>node_eject\<close>, and \<open>insert_between\<close>) write to the node and to its
  neighbours, one assignment after the other, each reading the store the previous one left.
\<close>

record ('k, 'v) Item =
  item_key :: 'k
  item_value :: 'v

record ('k, 'v) DLListNode =
  data :: "('k, 'v) Item"
  prv :: "nat option"
  nxt :: "nat option"

type_synonym ('k, 'v) store = "('k, 'v) DLListNode list"

definition node_eject :: "('k, 'v) store \<Rightarrow> nat \<Rightarrow> ('k, 'v) store" where
  "node_eject h a =
     (let h1 = (case prv (h ! a) of
                  None \<Rightarrow> h
                | Some p \<Rightarrow> h[p := (h ! p)\<lparr>nxt := nxt (h ! a)\<rparr>]);
          h2 = (case nxt (h1 ! a) of
                  None \<Rightarrow> h1
                | Some n \<Rightarrow> h1[n := (h1 ! n)\<lparr>prv := prv (h1 ! a)\<rparr>])
      in h2[a := (h2 ! a)\<lparr>prv := None, nxt := None\<rparr>])"

definition insert_between ::
  "('k, 'v) store \<Rightarrow> nat \<Rightarrow> nat option \<Rightarrow> nat option \<Rightarrow> ('k, 'v) store" where
  "insert_between h a p n =
     (let h1 = (case p of None \<Rightarrow> h | Some pa \<Rightarrow> h[pa := (h ! pa)\<lparr>nxt := Some a\<rparr>]);
          h2 = (case n of None \<Rightarrow> h1 | Some na \<Rightarrow> h1[na := (h1 ! na)\<lparr>prv := Some a\<rparr>])
      in h2[a := (h2 ! a)\<lparr>prv := p, nxt := n\<rparr>])"

subsection \<open>The list\<close>

text \<open>
  The fields \<open>_front\<close> and \<open>_back\<close> are \<open>dl_front\<close> and \<open>dl_back\<close>. A method of the list
  takes the list object and the store and returns both.
\<close>

record DLList =
  dl_front :: "nat option"
  dl_back :: "nat option"

definition DLList_init :: DLList where
  "DLList_init = \<lparr>dl_front = None, dl_back = None\<rparr>"

definition empty_list :: "DLList \<Rightarrow> bool" where
  "empty_list l = (dl_back l = None)"

definition push_front :: "DLList \<times> ('k, 'v) store \<Rightarrow> nat \<Rightarrow> DLList \<times> ('k, 'v) store" where
  "push_front lh node =
     (case lh of (l, h) \<Rightarrow>
        let h' = insert_between h node None (dl_front l);
            l1 = l\<lparr>dl_front := Some node\<rparr>
        in (if dl_back l1 = None then l1\<lparr>dl_back := Some node\<rparr> else l1, h'))"

definition push_back :: "DLList \<times> ('k, 'v) store \<Rightarrow> nat \<Rightarrow> DLList \<times> ('k, 'v) store" where
  "push_back lh node =
     (case lh of (l, h) \<Rightarrow>
        let h' = insert_between h node (dl_back l) None;
            l1 = l\<lparr>dl_back := Some node\<rparr>
        in (if dl_front l1 = None then l1\<lparr>dl_front := Some node\<rparr> else l1, h'))"

definition eject :: "DLList \<times> ('k, 'v) store \<Rightarrow> nat \<Rightarrow> DLList \<times> ('k, 'v) store" where
  "eject lh node =
     (case lh of (l, h) \<Rightarrow>
        let l1 = (if dl_front l = Some node then l\<lparr>dl_front := nxt (h ! node)\<rparr> else l);
            l2 = (if dl_back l1 = Some node then l1\<lparr>dl_back := prv (h ! node)\<rparr> else l1)
        in (l2, node_eject h node))"

definition pop_front ::
  "DLList \<times> ('k, 'v) store \<Rightarrow> error + (nat \<times> DLList \<times> ('k, 'v) store)" where
  "pop_front lh =
     (case dl_front (fst lh) of
        None \<Rightarrow> Inl IsEmptyError
      | Some node \<Rightarrow> Inr (node, eject lh node))"

definition pop_back ::
  "DLList \<times> ('k, 'v) store \<Rightarrow> error + (nat \<times> DLList \<times> ('k, 'v) store)" where
  "pop_back lh =
     (case dl_back (fst lh) of
        None \<Rightarrow> Inl IsEmptyError
      | Some node \<Rightarrow> Inr (node, eject lh node))"

definition move_to_front :: "DLList \<times> ('k, 'v) store \<Rightarrow> nat \<Rightarrow> DLList \<times> ('k, 'v) store" where
  "move_to_front lh node =
     (if dl_front (fst lh) \<noteq> Some node then push_front (eject lh node) node else lh)"

definition move_to_back :: "DLList \<times> ('k, 'v) store \<Rightarrow> nat \<Rightarrow> DLList \<times> ('k, 'v) store" where
  "move_to_back lh node =
     (if dl_back (fst lh) \<noteq> Some node then push_back (eject lh node) node else lh)"

subsection \<open>The cache\<close>

record ('k, 'v) LRUCache =
  max_size :: "int option"
  dict :: "('k \<times> nat) list"
  dllist :: DLList
  heap :: "('k, 'v) store"

definition LRUCache_init :: "pyobj \<Rightarrow> error + ('k, 'v) LRUCache" where
  "LRUCache_init c =
     (case as_int c of
        None \<Rightarrow> Inl TypeError
      | Some n \<Rightarrow> if n \<le> 0 then Inl ValueError
                  else Inr \<lparr>max_size = Some n, dict = [], dllist = DLList_init, heap = []\<rparr>)"

definition full :: "('k, 'v) LRUCache \<Rightarrow> bool" where
  "full s = (case max_size s of None \<Rightarrow> False | Some m \<Rightarrow> int (length (dict s)) \<ge> m)"

definition get ::
  "('k, 'v) LRUCache \<Rightarrow> 'k \<Rightarrow> 'v option \<Rightarrow> 'v result \<times> ('k, 'v) LRUCache" where
  "get s k default_value =
     (case map_of (dict s) k of
        Some node \<Rightarrow>
          (case move_to_front (dllist s, heap s) node of (l, h) \<Rightarrow>
             (Value (item_value (data (h ! node))), s\<lparr>dllist := l, heap := h\<rparr>))
      | None \<Rightarrow> (case default_value of
                   Some d \<Rightarrow> (Value d, s)
                 | None \<Rightarrow> (Raise KeyError, s)))"

text \<open>
  The eviction step of \<open>put\<close> (the body of \<open>if self.full:\<close>). An exception leaves the
  cache as it is at the raise: \<open>pop_back\<close> raises before it changes anything, \<open>del\<close>
  after the list has lost its back node.
\<close>

definition evict :: "('k, 'v) LRUCache \<Rightarrow> (error \<times> ('k, 'v) LRUCache) + ('k, 'v) LRUCache" where
  "evict s =
     (case pop_back (dllist s, heap s) of
        Inl e \<Rightarrow> Inl (e, s)
      | Inr (lru_node, l, h) \<Rightarrow>
          (let s1 = s\<lparr>dllist := l, heap := h\<rparr> in
           case dict_del (dict s1) (item_key (data (h ! lru_node))) of
             Inl e \<Rightarrow> Inl (e, s1)
           | Inr d \<Rightarrow> Inr (s1\<lparr>dict := d\<rparr>)))"

text \<open>The last three statements of \<open>put\<close>: a new node, its index entry, the push.\<close>

definition insert_new :: "('k, 'v) LRUCache \<Rightarrow> 'k \<Rightarrow> 'v \<Rightarrow> ('k, 'v) LRUCache" where
  "insert_new s k v =
     (let node = length (heap s);
          h = heap s @ [\<lparr>data = \<lparr>item_key = k, item_value = v\<rparr>, prv = None, nxt = None\<rparr>];
          d = AList.update k node (dict s)
      in case push_front (dllist s, h) node of (l, h') \<Rightarrow>
           s\<lparr>dict := d, dllist := l, heap := h'\<rparr>)"

definition put ::
  "('k, 'v) LRUCache \<Rightarrow> 'k \<Rightarrow> 'v \<Rightarrow> 'v result \<times> ('k, 'v) LRUCache" where
  "put s k v =
     (case map_of (dict s) k of
        Some node \<Rightarrow>
          (case move_to_front (dllist s, heap s) node of (l, h) \<Rightarrow>
             (NoValue,
              s\<lparr>dllist := l,
                heap := h[node := (h ! node)\<lparr>data := (data (h ! node))\<lparr>item_value := v\<rparr>\<rparr>]\<rparr>))
      | None \<Rightarrow>
          (if full s then
             (case evict s of
                Inl (e, s') \<Rightarrow> (Raise e, s')
              | Inr s1 \<Rightarrow> (NoValue, insert_new s1 k v))
           else (NoValue, insert_new s k v)))"

section \<open>Sequences of calls\<close>

datatype ('k, 'v) call = Get 'k | GetDefault 'k 'v | Put 'k 'v

fun call_key :: "('k, 'v) call \<Rightarrow> 'k" where
  "call_key (Get k) = k"
| "call_key (GetDefault k d) = k"
| "call_key (Put k v) = k"

fun main_call ::
  "('k, 'v) main_LRUCache \<Rightarrow> ('k, 'v) call \<Rightarrow> 'v result \<times> ('k, 'v) main_LRUCache" where
  "main_call s (Get k) = main_get s k None"
| "main_call s (GetDefault k d) = main_get s k (Some d)"
| "main_call s (Put k v) = main_put s k v"

fun dll_call ::
  "('k, 'v) LRUCache \<Rightarrow> ('k, 'v) call \<Rightarrow> 'v result \<times> ('k, 'v) LRUCache" where
  "dll_call s (Get k) = get s k None"
| "dll_call s (GetDefault k d) = get s k (Some d)"
| "dll_call s (Put k v) = put s k v"

text \<open>
  A caller that makes the calls one after the other and goes on after an exception:
  the state after all calls, and what each call gave back.
\<close>

definition main_exec ::
  "('k, 'v) main_LRUCache \<Rightarrow> ('k, 'v) call list \<Rightarrow> ('k, 'v) main_LRUCache" where
  "main_exec s cs = foldl (\<lambda>s c. snd (main_call s c)) s cs"

fun main_outputs :: "('k, 'v) main_LRUCache \<Rightarrow> ('k, 'v) call list \<Rightarrow> 'v result list" where
  "main_outputs s [] = []"
| "main_outputs s (c # cs) = fst (main_call s c) # main_outputs (snd (main_call s c)) cs"

definition dll_exec :: "('k, 'v) LRUCache \<Rightarrow> ('k, 'v) call list \<Rightarrow> ('k, 'v) LRUCache" where
  "dll_exec s cs = foldl (\<lambda>s c. snd (dll_call s c)) s cs"

fun dll_outputs :: "('k, 'v) LRUCache \<Rightarrow> ('k, 'v) call list \<Rightarrow> 'v result list" where
  "dll_outputs s [] = []"
| "dll_outputs s (c # cs) = fst (dll_call s c) # dll_outputs (snd (dll_call s c)) cs"

section \<open>Observing a cache\<close>

text \<open>
  The recency order of the linked-list cache is read off the store by following \<open>nxt\<close>
  from \<open>front\<close>; the walk is bounded by the number of allocated nodes.
\<close>

fun chain :: "(nat \<Rightarrow> nat option) \<Rightarrow> nat \<Rightarrow> nat option \<Rightarrow> nat list" where
  "chain N 0 p = []"
| "chain N (Suc n) None = []"
| "chain N (Suc n) (Some a) = a # chain N n (N a)"

definition order :: "('k, 'v) LRUCache \<Rightarrow> nat list" where
  "order s = chain (\<lambda>a. nxt (heap s ! a)) (length (heap s)) (dl_front (dllist s))"

definition entries :: "('k, 'v) LRUCache \<Rightarrow> ('k \<times> 'v) list" where
  "entries s = map (\<lambda>a. (item_key (data (heap s ! a)), item_value (data (heap s ! a)))) (order s)"

definition keys :: "('k, 'v) LRUCache \<Rightarrow> 'k list" where
  "keys s = map fst (entries s)"

text \<open>The specification's \<open>len()\<close> is the size of the index, as \<open>full\<close> reads it.\<close>

definition len :: "('k, 'v) LRUCache \<Rightarrow> nat" where
  "len s = length (dict s)"

text \<open>
  In \<open>src/main.py\<close> the dict itself is the queue: its first key is the eviction
  candidate, its last key the most recently used one.
\<close>

definition main_entries :: "('k, 'v) main_LRUCache \<Rightarrow> ('k \<times> 'v) list" where
  "main_entries s = rev (m_dict s)"

definition main_keys :: "('k, 'v) main_LRUCache \<Rightarrow> 'k list" where
  "main_keys s = map fst (main_entries s)"

definition main_len :: "('k, 'v) main_LRUCache \<Rightarrow> nat" where
  "main_len s = length (m_dict s)"

section \<open>The shape of the list in the store\<close>

text \<open>
  \<open>linked P N p as q\<close>: the addresses \<open>as\<close> are chained in both directions, \<open>P\<close> and \<open>N\<close>
  being the \<open>_prv\<close> and \<open>_nxt\<close> fields; \<open>p\<close> is what the first node has before it and
  \<open>q\<close> what the last node has after it.
\<close>

fun linked ::
  "(nat \<Rightarrow> nat option) \<Rightarrow> (nat \<Rightarrow> nat option) \<Rightarrow> nat option \<Rightarrow> nat list \<Rightarrow> nat option \<Rightarrow> bool" where
  "linked P N p [] q = True"
| "linked P N p (a # as) q =
     (P a = p \<and> N a = (case as of [] \<Rightarrow> q | b # _ \<Rightarrow> Some b) \<and> linked P N (Some a) as q)"

definition first_opt :: "'a list \<Rightarrow> 'a option" where
  "first_opt xs = (case xs of [] \<Rightarrow> None | x # _ \<Rightarrow> Some x)"

definition last_opt :: "'a list \<Rightarrow> 'a option" where
  "last_opt xs = (if xs = [] then None else Some (last xs))"

text \<open>
  \<open>dll h l as\<close>: the list object \<open>l\<close> holds exactly the nodes \<open>as\<close>, front to back, in
  the store \<open>h\<close>: no node twice, the boundary links absent, neighbours linked to each
  other.
\<close>

definition dll :: "('k, 'v) store \<Rightarrow> DLList \<Rightarrow> nat list \<Rightarrow> bool" where
  "dll h l as =
     (distinct as \<and> (\<forall>a\<in>set as. a < length h) \<and>
      dl_front l = first_opt as \<and> dl_back l = last_opt as \<and>
      linked (\<lambda>a. prv (h ! a)) (\<lambda>a. nxt (h ! a)) None as None)"

text \<open>
  The invariant of the cache: the list is well formed, its nodes carry pairwise different
  keys, the index maps exactly these keys, each to the node that carries it, and the
  number of entries is within the capacity.
\<close>

definition cache_inv :: "('k, 'v) LRUCache \<Rightarrow> bool" where
  "cache_inv s =
     (dll (heap s) (dllist s) (order s) \<and>
      distinct (keys s) \<and>
      distinct (map fst (dict s)) \<and>
      (\<forall>(k, a)\<in>set (dict s). a \<in> set (order s) \<and> item_key (data (heap s ! a)) = k) \<and>
      (\<forall>a\<in>set (order s). map_of (dict s) (item_key (data (heap s ! a))) = Some a) \<and>
      length (dict s) = length (order s) \<and>
      (case max_size s of None \<Rightarrow> False | Some m \<Rightarrow> 0 < m \<and> int (length (dict s)) \<le> m))"

section \<open>The cache the specification describes\<close>

text \<open>
  The specification's cache, on the list of entries from most to least recently used:
  a hit of \<open>get\<close> moves the entry to the front; \<open>put\<close> on a present key replaces the
  value and moves the entry to the front; \<open>put\<close> on an absent key drops the back entry
  when the entry count equals the capacity and then adds the new entry at the front.
\<close>

definition spec_get :: "('k \<times> 'v) list \<Rightarrow> 'k \<Rightarrow> ('k \<times> 'v) list" where
  "spec_get es k =
     (case map_of es k of None \<Rightarrow> es | Some v \<Rightarrow> (k, v) # AList.delete k es)"

definition spec_result :: "('k \<times> 'v) list \<Rightarrow> 'k \<Rightarrow> 'v option \<Rightarrow> 'v result" where
  "spec_result es k default_value =
     (case map_of es k of
        Some v \<Rightarrow> Value v
      | None \<Rightarrow> (case default_value of None \<Rightarrow> Raise KeyError | Some d \<Rightarrow> Value d))"

definition spec_put :: "int \<Rightarrow> ('k \<times> 'v) list \<Rightarrow> 'k \<Rightarrow> 'v \<Rightarrow> ('k \<times> 'v) list" where
  "spec_put m es k v =
     (case map_of es k of
        Some _ \<Rightarrow> (k, v) # AList.delete k es
      | None \<Rightarrow> (k, v) # (if int (length es) = m then butlast es else es))"

fun spec_call ::
  "int \<Rightarrow> ('k \<times> 'v) list \<Rightarrow> ('k, 'v) call \<Rightarrow> 'v result \<times> ('k \<times> 'v) list" where
  "spec_call m es (Get k) = (spec_result es k None, spec_get es k)"
| "spec_call m es (GetDefault k d) = (spec_result es k (Some d), spec_get es k)"
| "spec_call m es (Put k v) = (NoValue, spec_put m es k v)"

definition spec_exec :: "int \<Rightarrow> ('k \<times> 'v) list \<Rightarrow> ('k, 'v) call list \<Rightarrow> ('k \<times> 'v) list" where
  "spec_exec m es cs = foldl (\<lambda>es c. snd (spec_call m es c)) es cs"

fun spec_outputs :: "int \<Rightarrow> ('k \<times> 'v) list \<Rightarrow> ('k, 'v) call list \<Rightarrow> 'v result list" where
  "spec_outputs m es [] = []"
| "spec_outputs m es (c # cs) = fst (spec_call m es c) # spec_outputs m (snd (spec_call m es c)) cs"

text \<open>No \<open>put\<close> of the sequence is made on a key that is in the cache at that call.\<close>

fun no_put_hit :: "int \<Rightarrow> ('k \<times> 'v) list \<Rightarrow> ('k, 'v) call list \<Rightarrow> bool" where
  "no_put_hit m es [] = True"
| "no_put_hit m es (Get k # cs) = no_put_hit m (spec_get es k) cs"
| "no_put_hit m es (GetDefault k d # cs) = no_put_hit m (spec_get es k) cs"
| "no_put_hit m es (Put k v # cs) = (map_of es k = None \<and> no_put_hit m (spec_put m es k v) cs)"

text \<open>
  When a key was last accessed: the position, counted from 1, of the last call of the
  sequence made on that key, and 0 for a key no call was made on. (A \<open>get\<close> that misses
  counts, which makes no difference for a key that is in the cache afterwards: it has
  been \<open>put\<close> since.)
\<close>

definition last_access :: "('k, 'v) call list \<Rightarrow> 'k \<Rightarrow> nat" where
  "last_access cs k = length (dropWhile (\<lambda>c. call_key c \<noteq> k) (rev cs))"

text \<open>The invariant of the dict of \<open>src/main.py\<close>: a positive capacity, at most that many entries.\<close>

definition main_inv :: "('k, 'v) main_LRUCache \<Rightarrow> bool" where
  "main_inv s =
     (distinct (map fst (m_dict s)) \<and> 0 < m_max_size s \<and> int (length (m_dict s)) \<le> m_max_size s)"

section \<open>Example caches\<close>

text \<open>
  The caches \<open>LRUCache(2)\<close> and \<open>LRUCache(3)\<close> of both modules right after construction,
  with integer keys and values, and the calls of \<open>main()\<close> (the default \<open>None\<close> of
  \<open>get(10, None)\<close> is written \<open>0\<close>).
\<close>

definition cache2 :: "(nat, nat) LRUCache" where
  "cache2 = \<lparr>max_size = Some 2, dict = [], dllist = DLList_init, heap = []\<rparr>"

definition cache3 :: "(nat, nat) LRUCache" where
  "cache3 = \<lparr>max_size = Some 3, dict = [], dllist = DLList_init, heap = []\<rparr>"

definition main_cache2 :: "(nat, nat) main_LRUCache" where
  "main_cache2 = \<lparr>m_max_size = 2, m_dict = []\<rparr>"

definition main_cache3 :: "(nat, nat) main_LRUCache" where
  "main_cache3 = \<lparr>m_max_size = 3, m_dict = []\<rparr>"

definition scenario :: "(nat, nat) call list" where
  "scenario = [Put 1 2, Put 10 20, Get 1, Put 100 200, GetDefault 10 0, Get 1]"

text \<open>Calls that put key \<open>1\<close> a second time before the cache of capacity 3 fills up.\<close>

definition reput :: "(nat, nat) call list" where
  "reput = [Put 1 10, Put 2 20, Put 1 11, Put 3 30]"

section \<open>The linked-list cache keeps its invariant and implements the specification's cache\<close>

subsection \<open>Links in the store\<close>

lemma linked_upd_P: "u \<notin> set as \<Longrightarrow> linked (P(u := v)) N p as q = linked P N p as q"
  by (induction as arbitrary: p) auto

lemma linked_upd_N: "u \<notin> set as \<Longrightarrow> linked P (N(u := v)) p as q = linked P N p as q"
  by (induction as arbitrary: p) auto

lemma linked_append:
  "linked P N p (xs @ ys) q =
     (linked P N p xs (case ys of [] \<Rightarrow> q | b # _ \<Rightarrow> Some b) \<and>
      linked P N (if xs = [] then p else Some (last xs)) ys q)"
  by (induction xs arbitrary: p) (auto split: list.splits)

lemma nth_upd: "h[i := v] ! a = (if a = i \<and> i < length h then v else h ! a)"
  by (cases "i < length h") (auto simp: nth_list_update list_update_beyond)

lemma data_update_nth: "data v = data (h ! i) \<Longrightarrow> data (h[i := v] ! a) = data (h ! a)"
  by (simp add: nth_upd)

lemma data_update: "data v = data (h ! i) \<Longrightarrow> map data (h[i := v]) = map data h"
  by (rule nth_equalityI) (auto simp: data_update_nth)

lemma length_node_eject: "length (node_eject h a) = length h"
  by (simp add: node_eject_def Let_def split: option.splits)

lemma data_node_eject: "map data (node_eject h a) = map data h"
  by (simp add: node_eject_def Let_def data_update data_update_nth split: option.splits)

lemma length_insert_between: "length (insert_between h a p n) = length h"
  by (simp add: insert_between_def Let_def split: option.splits)

lemma data_insert_between: "map data (insert_between h a p n) = map data h"
  by (simp add: insert_between_def Let_def data_update data_update_nth split: option.splits)

lemma prv_node_eject:
  assumes "a < length h"
    and "\<forall>p. prv (h ! a) = Some p \<longrightarrow> p < length h \<and> p \<noteq> a"
    and "\<forall>n. nxt (h ! a) = Some n \<longrightarrow> n < length h"
  shows "prv (node_eject h a ! x) =
         (((case nxt (h ! a) of None \<Rightarrow> (\<lambda>x. prv (h ! x))
           | Some n \<Rightarrow> (\<lambda>x. prv (h ! x))(n := prv (h ! a)))) (a := None)) x"
  using assms
  by (auto simp: node_eject_def Let_def fun_eq_iff nth_upd split: option.splits)

lemma nxt_node_eject:
  assumes "a < length h"
    and "\<forall>p. prv (h ! a) = Some p \<longrightarrow> p < length h \<and> p \<noteq> a"
    and "\<forall>n. nxt (h ! a) = Some n \<longrightarrow> n < length h"
  shows "nxt (node_eject h a ! x) =
         (((case prv (h ! a) of None \<Rightarrow> (\<lambda>x. nxt (h ! x))
           | Some p \<Rightarrow> (\<lambda>x. nxt (h ! x))(p := nxt (h ! a)))) (a := None)) x"
  using assms
  by (auto simp: node_eject_def Let_def fun_eq_iff nth_upd split: option.splits)

lemma prv_insert_between:
  assumes "a < length h" and "\<forall>x. n = Some x \<longrightarrow> x < length h"
  shows "prv (insert_between h a p n ! x) =
         (((case n of None \<Rightarrow> (\<lambda>x. prv (h ! x)) | Some na \<Rightarrow> (\<lambda>x. prv (h ! x))(na := Some a)))
           (a := p)) x"
  using assms
  by (auto simp: insert_between_def Let_def fun_eq_iff nth_upd split: option.splits)

lemma nxt_insert_between:
  assumes "a < length h" and "\<forall>x. p = Some x \<longrightarrow> x < length h"
  shows "nxt (insert_between h a p n ! x) =
         (((case p of None \<Rightarrow> (\<lambda>x. nxt (h ! x)) | Some pa \<Rightarrow> (\<lambda>x. nxt (h ! x))(pa := Some a)))
           (a := n)) x"
  using assms
  by (auto simp: insert_between_def Let_def fun_eq_iff nth_upd split: option.splits)


lemma chain_linked:
  "linked P N p as None \<Longrightarrow> length as \<le> n \<Longrightarrow> chain N n (first_opt as) = as"
proof (induction as arbitrary: n p)
  case Nil
  then show ?case by (cases n) (simp_all add: first_opt_def)
next
  case (Cons a as)
  then obtain m where n: "n = Suc m" by (cases n) auto
  from Cons.prems have "N a = first_opt as" "linked P N (Some a) as None"
    by (auto simp: first_opt_def split: list.splits)
  with Cons.IH[of "Some a" m] Cons.prems n show ?case
    by (simp add: first_opt_def)
qed

lemma dll_length: "dll h l as \<Longrightarrow> length as \<le> length h"
proof -
  assume d: "dll h l as"
  then have "set as \<subseteq> {..<length h}" "distinct as" by (auto simp: dll_def)
  then have "card (set as) \<le> card {..<length h}" by (intro card_mono) auto
  with \<open>distinct as\<close> show ?thesis by (simp add: distinct_card)
qed

lemma dll_chain:
  "dll h l as \<Longrightarrow> chain (\<lambda>a. nxt (h ! a)) (length h) (dl_front l) = as"
  using chain_linked[of "\<lambda>a. prv (h ! a)" "\<lambda>a. nxt (h ! a)" None as "length h"] dll_length[of h l as]
  by (simp add: dll_def)

lemma dllI:
  assumes "distinct as" "\<forall>a\<in>set as. a < length h"
    and "dl_front l = first_opt as" "dl_back l = last_opt as"
    and "P = (\<lambda>a. prv (h ! a))" "N = (\<lambda>a. nxt (h ! a))"
    and "linked P N None as None"
  shows "dll h l as"
  using assms by (simp add: dll_def)

lemma dll_push_front:
  assumes d: "dll h l as" and a: "a < length h" "a \<notin> set as"
  shows "dll (snd (push_front (l, h) a)) (fst (push_front (l, h) a)) (a # as)"
proof -
  let ?P = "\<lambda>x. prv (h ! x)" and ?N = "\<lambda>x. nxt (h ! x)"
  let ?P' = "(case first_opt as of None \<Rightarrow> ?P | Some b \<Rightarrow> ?P(b := Some a))(a := None)"
  let ?N' = "?N(a := first_opt as)"
  from d have fr: "dl_front l = first_opt as" and bk: "dl_back l = last_opt as"
    and bd: "\<forall>x. first_opt as = Some x \<longrightarrow> x < length h"
    and lk: "linked ?P ?N None as None" and dist: "distinct as"
    and bds: "\<forall>a\<in>set as. a < length h"
    by (auto simp: dll_def first_opt_def split: list.splits)
  show ?thesis
  proof (rule dllI[where P = ?P' and N = ?N'])
    show "distinct (a # as)" using dist a by simp
    show "\<forall>x\<in>set (a # as). x < length (snd (push_front (l, h) a))"
      using bds a by (simp add: push_front_def Let_def length_insert_between)
    show "dl_front (fst (push_front (l, h) a)) = first_opt (a # as)"
      by (simp add: push_front_def Let_def first_opt_def)
    show "dl_back (fst (push_front (l, h) a)) = last_opt (a # as)"
      using bk by (simp add: push_front_def Let_def last_opt_def)
    show "?P' = (\<lambda>x. prv (snd (push_front (l, h) a) ! x))"
      using a bd by (intro ext) (simp add: push_front_def Let_def fr prv_insert_between)
    show "?N' = (\<lambda>x. nxt (snd (push_front (l, h) a) ! x))"
      using a bd by (intro ext) (simp add: push_front_def Let_def fr nxt_insert_between)
    show "linked ?P' ?N' None (a # as) None"
      using lk a dist by (cases as) (simp_all add: first_opt_def linked_upd_P linked_upd_N)
  qed
qed

lemma remove1_split: "a \<notin> set xs \<Longrightarrow> remove1 a (xs @ a # ys) = xs @ ys"
  by (induction xs) auto

lemma dll_eject:
  assumes d: "dll h l as" and a: "a \<in> set as"
  shows "dll (snd (eject (l, h) a)) (fst (eject (l, h) a)) (remove1 a as)"
proof -
  let ?P = "\<lambda>x. prv (h ! x)" and ?N = "\<lambda>x. nxt (h ! x)"
  from a obtain xs ys where as: "as = xs @ a # ys" by (auto simp: in_set_conv_decomp)
  from d have fr: "dl_front l = first_opt as" and bk: "dl_back l = last_opt as"
    and lk: "linked ?P ?N None as None" and dist: "distinct as"
    and bds: "\<forall>a\<in>set as. a < length h"
    by (auto simp: dll_def)
  from dist as have nin: "a \<notin> set xs" "a \<notin> set ys" "distinct xs" "distinct ys" "set xs \<inter> set ys = {}"
    by auto
  from lk as have pa: "prv (h ! a) = last_opt xs" and na: "nxt (h ! a) = first_opt ys"
    and lx: "linked ?P ?N None xs (Some a)" and ly: "linked ?P ?N (Some a) ys None"
    by (auto simp: linked_append last_opt_def first_opt_def split: list.splits)
  let ?P' = "(case first_opt ys of None \<Rightarrow> ?P | Some n \<Rightarrow> ?P(n := last_opt xs))(a := None)"
  let ?N' = "(case last_opt xs of None \<Rightarrow> ?N | Some p \<Rightarrow> ?N(p := first_opt ys))(a := None)"
  have al: "a < length h" using bds a by simp
  have b1: "\<forall>p. prv (h ! a) = Some p \<longrightarrow> p < length h \<and> p \<noteq> a"
    using pa bds as nin by (auto simp: last_opt_def split: if_splits)
  have b2: "\<forall>n. nxt (h ! a) = Some n \<longrightarrow> n < length h"
    using na bds as by (auto simp: first_opt_def split: list.splits)
  show ?thesis
  proof (rule dllI[where P = ?P' and N = ?N'])
    show "distinct (remove1 a as)" using dist by simp
    show "\<forall>x\<in>set (remove1 a as). x < length (snd (eject (l, h) a))"
      using bds dist by (simp add: eject_def Let_def length_node_eject)
    show "dl_front (fst (eject (l, h) a)) = first_opt (remove1 a as)"
      using fr na nin as
      by (cases xs) (auto simp: eject_def Let_def first_opt_def remove1_split[OF nin(1)] split: list.splits)
    show "dl_back (fst (eject (l, h) a)) = last_opt (remove1 a as)"
      using bk pa nin as
      by (cases ys rule: rev_cases) (auto simp: eject_def Let_def last_opt_def remove1_split[OF nin(1)])
    show "?P' = (\<lambda>x. prv (snd (eject (l, h) a) ! x))"
      using al b1 b2 by (intro ext) (simp add: eject_def Let_def prv_node_eject pa na split: option.splits)
    show "?N' = (\<lambda>x. nxt (snd (eject (l, h) a) ! x))"
      using al b1 b2 by (intro ext) (simp add: eject_def Let_def nxt_node_eject pa na split: option.splits)
    have "linked ?P' ?N' None (xs @ ys) None"
    proof (cases xs rule: rev_cases)
      case Nil
      with ly nin dist as show ?thesis
        by (cases ys) (simp_all add: linked_upd_P linked_upd_N first_opt_def last_opt_def)
    next
      case (snoc xs' p)
      with lx ly nin dist as show ?thesis
        by (cases ys)
          (auto simp: linked_append linked_upd_P linked_upd_N first_opt_def last_opt_def)
    qed
    then show "linked ?P' ?N' None (remove1 a as) None"
      by (simp add: as remove1_split[OF nin(1)])
  qed
qed

subsection \<open>The list operations\<close>

lemma linked_cong:
  "\<forall>x\<in>set as. P' x = P x \<and> N' x = N x \<Longrightarrow> linked P' N' p as q = linked P N p as q"
  by (induction as arbitrary: p) auto

lemma dll_cong:
  assumes "dll h l as" "length h \<le> length h'"
    and "\<forall>x\<in>set as. prv (h' ! x) = prv (h ! x) \<and> nxt (h' ! x) = nxt (h ! x)"
  shows "dll h' l as"
  using assms linked_cong[of as "\<lambda>a. prv (h' ! a)" "\<lambda>a. prv (h ! a)" "\<lambda>a. nxt (h' ! a)" "\<lambda>a. nxt (h ! a)" None None]
  by (auto simp: dll_def)

lemma length_push_front: "length (snd (push_front lh a)) = length (snd lh)"
  by (cases lh) (simp add: push_front_def Let_def length_insert_between)

lemma data_push_front: "map data (snd (push_front lh a)) = map data (snd lh)"
  by (cases lh) (simp add: push_front_def Let_def data_insert_between)

lemma length_eject: "length (snd (eject lh a)) = length (snd lh)"
  by (cases lh) (simp add: eject_def Let_def length_node_eject)

lemma data_eject: "map data (snd (eject lh a)) = map data (snd lh)"
  by (cases lh) (simp add: eject_def Let_def data_node_eject)

lemma length_move_to_front: "length (snd (move_to_front lh a)) = length (snd lh)"
  by (simp add: move_to_front_def length_push_front length_eject)

lemma data_move_to_front: "map data (snd (move_to_front lh a)) = map data (snd lh)"
  by (simp add: move_to_front_def data_push_front data_eject)

lemma data_nth:
  "map data h' = map data h \<Longrightarrow> a < length h \<Longrightarrow> data (h' ! a) = data (h ! a)"
  by (metis length_map nth_map)

lemma dll_move_to_front:
  assumes d: "dll h l as" and a: "a \<in> set as"
  shows "dll (snd (move_to_front (l, h) a)) (fst (move_to_front (l, h) a)) (a # remove1 a as)"
proof (cases "dl_front l = Some a")
  case True
  with d a have "as = a # remove1 a as"
    by (cases as) (auto simp: dll_def first_opt_def)
  with d True show ?thesis by (simp add: move_to_front_def)
next
  case False
  let ?e = "eject (l, h) a"
  have "dll (snd ?e) (fst ?e) (remove1 a as)" by (rule dll_eject[OF d a])
  moreover have "a < length (snd ?e)" using d a by (simp add: length_eject dll_def)
  moreover have "a \<notin> set (remove1 a as)" using d by (simp add: dll_def)
  ultimately have "dll (snd (push_front (fst ?e, snd ?e) a)) (fst (push_front (fst ?e, snd ?e) a))
      (a # remove1 a as)"
    by (rule dll_push_front)
  with False show ?thesis by (simp add: move_to_front_def)
qed

lemma remove1_last: "distinct as \<Longrightarrow> as \<noteq> [] \<Longrightarrow> remove1 (last as) as = butlast as"
  by (cases as rule: rev_cases) (auto simp: remove1_append)

lemma pop_back_dll:
  assumes d: "dll h l as" and ne: "as \<noteq> []"
  shows "pop_back (l, h) = Inr (last as, eject (l, h) (last as))"
    and "dll (snd (eject (l, h) (last as))) (fst (eject (l, h) (last as))) (butlast as)"
proof -
  from d ne show "pop_back (l, h) = Inr (last as, eject (l, h) (last as))"
    by (simp add: pop_back_def dll_def last_opt_def)
  from d ne dll_eject[OF d, of "last as"]
  show "dll (snd (eject (l, h) (last as))) (fst (eject (l, h) (last as))) (butlast as)"
    by (simp add: remove1_last dll_def)
qed

lemma pop_back_empty: "dll h l as \<Longrightarrow> (pop_back (l, h) = Inl IsEmptyError) = (as = [])"
  by (auto simp: pop_back_def dll_def last_opt_def split: option.splits)

lemma pop_front_empty: "dll h l as \<Longrightarrow> (pop_front (l, h) = Inl IsEmptyError) = (as = [])"
  by (auto simp: pop_front_def dll_def first_opt_def split: option.splits list.splits)

subsection \<open>The invariant of the cache\<close>

lemma cache_invI:
  assumes "dll (heap s) (dllist s) as"
    and "distinct (map (\<lambda>a. item_key (data (heap s ! a))) as)"
    and "distinct (map fst (dict s))"
    and "\<forall>(k, a)\<in>set (dict s). a \<in> set as \<and> item_key (data (heap s ! a)) = k"
    and "\<forall>a\<in>set as. map_of (dict s) (item_key (data (heap s ! a))) = Some a"
    and "length (dict s) = length as"
    and "max_size s = Some m" "0 < m" "int (length (dict s)) \<le> m"
  shows "cache_inv s" and "order s = as"
proof -
  show o: "order s = as" using dll_chain[OF assms(1)] by (simp add: order_def)
  show "cache_inv s"
    using assms unfolding cache_inv_def o keys_def entries_def
    by (simp add: comp_def)
qed

lemma cache_invD:
  assumes "cache_inv s"
  shows "dll (heap s) (dllist s) (order s)"
    and "distinct (map (\<lambda>a. item_key (data (heap s ! a))) (order s))"
    and "distinct (map fst (dict s))"
    and "\<forall>(k, a)\<in>set (dict s). a \<in> set (order s) \<and> item_key (data (heap s ! a)) = k"
    and "\<forall>a\<in>set (order s). map_of (dict s) (item_key (data (heap s ! a))) = Some a"
    and "length (dict s) = length (order s)"
    and "\<exists>m. max_size s = Some m \<and> 0 < m \<and> int (length (dict s)) \<le> m"
  using assms unfolding cache_inv_def keys_def entries_def
  by (simp_all add: comp_def split: option.splits)

lemma cache_inv_relink:
  assumes inv: "cache_inv s" and d: "dll h' l' as'"
    and set: "set as' = set (order s)"
    and key: "\<forall>x\<in>set (order s). item_key (data (h' ! x)) = item_key (data (heap s ! x))"
  shows "cache_inv (s\<lparr>dllist := l', heap := h'\<rparr>)"
    and "order (s\<lparr>dllist := l', heap := h'\<rparr>) = as'"
proof -
  let ?s = "s\<lparr>dllist := l', heap := h'\<rparr>"
  note D = cache_invD[OF inv]
  from D(7) obtain m where m: "max_size s = Some m" "0 < m" "int (length (dict s)) \<le> m"
    by auto
  have da: "distinct as'" "distinct (order s)" using d D(1) by (auto simp: dll_def)
  then have len: "length as' = length (order s)"
    using set by (metis distinct_card)
  have inj: "inj_on (\<lambda>a. item_key (data (heap s ! a))) (set (order s))"
    using D(2) by (simp add: distinct_map)
  have inj': "inj_on (\<lambda>a. item_key (data (h' ! a))) (set as')"
    unfolding set using inj key by (auto simp: inj_on_def)
  have 1: "dll (heap ?s) (dllist ?s) as'" using d by simp
  have 2: "distinct (map (\<lambda>a. item_key (data (heap ?s ! a))) as')"
    using da inj' by (simp add: distinct_map)
  have 3: "distinct (map fst (dict ?s))" using D(3) by simp
  have 4: "\<forall>(k, a)\<in>set (dict ?s). a \<in> set as' \<and> item_key (data (heap ?s ! a)) = k"
    using D(4) key set by auto
  have 5: "\<forall>a\<in>set as'. map_of (dict ?s) (item_key (data (heap ?s ! a))) = Some a"
    using D(5) key set by auto
  have 6: "length (dict ?s) = length as'" using D(6) len by simp
  have 7: "max_size ?s = Some m" "int (length (dict ?s)) \<le> m" using m by simp_all
  show "cache_inv ?s" by (rule cache_invI(1)[OF 1 2 3 4 5 6 7(1) m(2) 7(2)])
  show "order ?s = as'" by (rule cache_invI(2)[OF 1 2 3 4 5 6 7(1) m(2) 7(2)])
qed

lemma entries_map:
  "entries s = map (\<lambda>a. (item_key (data (heap s ! a)), item_value (data (heap s ! a)))) (order s)"
  by (simp add: entries_def)

lemma keys_map: "keys s = map (\<lambda>a. item_key (data (heap s ! a))) (order s)"
  by (simp add: keys_def entries_def comp_def)

lemma hit_facts:
  assumes inv: "cache_inv s" and hit: "map_of (dict s) k = Some a"
  shows "a \<in> set (order s)" and "item_key (data (heap s ! a)) = k"
    and "a < length (heap s)"
    and "map_of (entries s) k = Some (item_value (data (heap s ! a)))"
proof -
  note D = cache_invD[OF inv]
  from hit have "(k, a) \<in> set (dict s)" by (rule map_of_SomeD)
  with D(4) show a: "a \<in> set (order s)" and k: "item_key (data (heap s ! a)) = k" by auto
  from a D(1) show "a < length (heap s)" by (simp add: dll_def)
  have "distinct (map fst (entries s))" using D(2) by (simp add: entries_def comp_def)
  moreover have "(k, item_value (data (heap s ! a))) \<in> set (entries s)"
    using a k by (force simp: entries_def)
  ultimately show "map_of (entries s) k = Some (item_value (data (heap s ! a)))"
    by simp
qed

lemma miss_facts:
  assumes inv: "cache_inv s" and miss: "map_of (dict s) k = None"
  shows "k \<notin> set (keys s)" and "map_of (entries s) k = None"
proof -
  note D = cache_invD[OF inv]
  show "k \<notin> set (keys s)"
  proof
    assume "k \<in> set (keys s)"
    then obtain a where "a \<in> set (order s)" "item_key (data (heap s ! a)) = k"
      by (auto simp: keys_map)
    with D(5) miss show False by auto
  qed
  then show "map_of (entries s) k = None"
    by (simp add: keys_def map_of_eq_None_iff)
qed

subsection \<open>Hits\<close>

lemma delete_map_entries:
  "distinct (map f as) \<Longrightarrow> a \<in> set as \<Longrightarrow>
   AList.delete (f a) (map (\<lambda>x. (f x, g x)) as) = map (\<lambda>x. (f x, g x)) (remove1 a as)"
proof (induction as)
  case Nil
  then show ?case by simp
next
  case (Cons b bs)
  show ?case
  proof (cases "a = b")
    case True
    with Cons.prems have "f b \<notin> fst ` set (map (\<lambda>x. (f x, g x)) bs)" by (auto simp: image_iff)
    with True show ?thesis by (simp add: AList.delete_id)
  next
    case False
    with Cons show ?thesis by (auto simp: image_iff)
  qed
qed

lemma get_hit:
  assumes inv: "cache_inv s" and hit: "map_of (dict s) k = Some a"
  shows "cache_inv (snd (get s k d))"
    and "order (snd (get s k d)) = a # remove1 a (order s)"
    and "entries (snd (get s k d)) = spec_get (entries s) k"
    and "fst (get s k d) = spec_result (entries s) k d"
    and "dict (snd (get s k d)) = dict s"
    and "max_size (snd (get s k d)) = max_size s"
proof -
  let ?m = "move_to_front (dllist s, heap s) a"
  let ?s = "s\<lparr>dllist := fst ?m, heap := snd ?m\<rparr>"
  note D = cache_invD[OF inv] and H = hit_facts[OF inv hit]
  have g: "get s k d = (Value (item_value (data (snd ?m ! a))), ?s)"
    using hit by (simp add: get_def split: prod.splits)
  have d: "dll (snd ?m) (fst ?m) (a # remove1 a (order s))"
    by (rule dll_move_to_front[OF D(1) H(1)])
  have dist: "distinct (order s)" using D(1) by (simp add: dll_def)
  have set: "set (a # remove1 a (order s)) = set (order s)"
    using H(1) dist by auto
  have dat: "\<forall>x\<in>set (order s). data (snd ?m ! x) = data (heap s ! x)"
    using D(1) data_nth[OF data_move_to_front[of "(dllist s, heap s)" a]]
    by (auto simp: dll_def)
  then have key: "\<forall>x\<in>set (order s). item_key (data (snd ?m ! x)) = item_key (data (heap s ! x))"
    by simp
  show "cache_inv (snd (get s k d))"
    unfolding g snd_conv by (rule cache_inv_relink(1)[OF inv d set key])
  have o: "order ?s = a # remove1 a (order s)"
    by (rule cache_inv_relink(2)[OF inv d set key])
  then show "order (snd (get s k d)) = a # remove1 a (order s)" by (simp add: g)
  have "entries ?s =
      map (\<lambda>x. (item_key (data (heap s ! x)), item_value (data (heap s ! x)))) (a # remove1 a (order s))"
    unfolding entries_map o using dat set by (intro map_cong) auto
  also have "\<dots> = (k, item_value (data (heap s ! a))) # AList.delete k (entries s)"
    using delete_map_entries[OF D(2) H(1), of "\<lambda>x. item_value (data (heap s ! x))"] H(2)
    by (simp add: entries_map)
  also have "\<dots> = spec_get (entries s) k" by (simp add: spec_get_def H(4))
  finally show "entries (snd (get s k d)) = spec_get (entries s) k" by (simp add: g)
  show "fst (get s k d) = spec_result (entries s) k d"
    using dat H(1) by (simp add: g spec_result_def H(4))
  show "dict (snd (get s k d)) = dict s" "max_size (snd (get s k d)) = max_size s"
    by (simp_all add: g)
qed

lemma get_miss:
  assumes miss: "map_of (dict s) k = None"
  shows "get s k None = (Raise KeyError, s)" and "get s k (Some d) = (Value d, s)"
  using miss by (simp_all add: get_def)

lemma put_hit:
  assumes inv: "cache_inv s" and hit: "map_of (dict s) k = Some a"
  shows "cache_inv (snd (put s k v))"
    and "order (snd (put s k v)) = a # remove1 a (order s)"
    and "entries (snd (put s k v)) = (k, v) # AList.delete k (entries s)"
    and "fst (put s k v) = NoValue"
    and "dict (snd (put s k v)) = dict s"
    and "max_size (snd (put s k v)) = max_size s"
proof -
  let ?m = "move_to_front (dllist s, heap s) a"
  let ?h = "(snd ?m)[a := (snd ?m ! a)\<lparr>data := (data (snd ?m ! a))\<lparr>item_value := v\<rparr>\<rparr>]"
  let ?s = "s\<lparr>dllist := fst ?m, heap := ?h\<rparr>"
  note D = cache_invD[OF inv] and H = hit_facts[OF inv hit]
  have p: "put s k v = (NoValue, ?s)"
    using hit by (simp add: put_def split: prod.splits)
  have d0: "dll (snd ?m) (fst ?m) (a # remove1 a (order s))"
    by (rule dll_move_to_front[OF D(1) H(1)])
  have d: "dll ?h (fst ?m) (a # remove1 a (order s))"
    by (rule dll_cong[OF d0]) (simp_all add: nth_upd)
  have dist: "distinct (order s)" using D(1) by (simp add: dll_def)
  have set: "set (a # remove1 a (order s)) = set (order s)"
    using H(1) dist by auto
  have al: "a < length (snd ?m)" using H(3) by (simp add: length_move_to_front)
  have dat: "\<forall>x\<in>set (order s). data (snd ?m ! x) = data (heap s ! x)"
    using D(1) data_nth[OF data_move_to_front[of "(dllist s, heap s)" a]]
    by (auto simp: dll_def)
  then have key: "\<forall>x\<in>set (order s). item_key (data (?h ! x)) = item_key (data (heap s ! x))"
    by (simp add: nth_upd)
  show "cache_inv (snd (put s k v))"
    unfolding p snd_conv by (rule cache_inv_relink(1)[OF inv d set key])
  have o: "order ?s = a # remove1 a (order s)"
    by (rule cache_inv_relink(2)[OF inv d set key])
  then show "order (snd (put s k v)) = a # remove1 a (order s)" by (simp add: p)
  have "map (\<lambda>x. (item_key (data (?h ! x)), item_value (data (?h ! x)))) (remove1 a (order s)) =
      map (\<lambda>x. (item_key (data (heap s ! x)), item_value (data (heap s ! x)))) (remove1 a (order s))"
    using dat dist by (intro map_cong) (auto simp: nth_upd)
  also have "\<dots> = AList.delete k (entries s)"
    using delete_map_entries[OF D(2) H(1), of "\<lambda>x. item_value (data (heap s ! x))"] H(2)
    by (simp add: entries_map)
  finally have "entries ?s = (k, v) # AList.delete k (entries s)"
    unfolding entries_map o using al dat H(1) H(2) by (simp add: nth_upd)
  then show "entries (snd (put s k v)) = (k, v) # AList.delete k (entries s)" by (simp add: p)
  show "fst (put s k v) = NoValue" "dict (snd (put s k v)) = dict s"
    "max_size (snd (put s k v)) = max_size s"
    by (simp_all add: p)
qed

subsection \<open>A new entry\<close>

lemma update_new: "k \<notin> fst ` set al \<Longrightarrow> AList.update k v al = al @ [(k, v)]"
  by (induction al) auto

lemma length_delete_present:
  "distinct (map fst al) \<Longrightarrow> k \<in> fst ` set al \<Longrightarrow> length (AList.delete k al) = length al - 1"
proof (induction al)
  case Nil
  then show ?case by simp
next
  case (Cons p ps)
  show ?case
  proof (cases "fst p = k")
    case True
    with Cons.prems have "k \<notin> fst ` set ps" by auto
    with True show ?thesis by (cases p) (simp add: AList.delete_id)
  next
    case False
    with Cons have "length (AList.delete k ps) = length ps - 1" "ps \<noteq> []" by auto
    with False show ?thesis by (cases p) (auto simp: Suc_diff_le Suc_leI)
  qed
qed

lemma insert_new_inv:
  assumes inv: "cache_inv s" and miss: "map_of (dict s) k = None" and nf: "\<not> full s"
  shows "cache_inv (insert_new s k v)"
    and "order (insert_new s k v) = length (heap s) # order s"
    and "entries (insert_new s k v) = (k, v) # entries s"
    and "dict (insert_new s k v) = dict s @ [(k, length (heap s))]"
    and "max_size (insert_new s k v) = max_size s"
proof -
  let ?n = "length (heap s)"
  let ?h1 = "heap s @ [\<lparr>data = \<lparr>item_key = k, item_value = v\<rparr>, prv = None, nxt = None\<rparr>]"
  let ?p = "push_front (dllist s, ?h1) ?n"
  let ?s = "s\<lparr>dict := AList.update k ?n (dict s), dllist := fst ?p, heap := snd ?p\<rparr>"
  note D = cache_invD[OF inv] and M = miss_facts[OF inv miss]
  from D(7) obtain m where m: "max_size s = Some m" "0 < m" "int (length (dict s)) \<le> m"
    by auto
  have i: "insert_new s k v = ?s"
    by (simp add: insert_new_def Let_def split: prod.splits)
  have bds: "\<forall>x\<in>set (order s). x < ?n" using D(1) by (simp add: dll_def)
  have nin: "?n \<notin> set (order s)" using bds by auto
  have d1: "dll ?h1 (dllist s) (order s)"
    by (rule dll_cong[OF D(1)]) (use bds in \<open>auto simp: nth_append\<close>)
  have d: "dll (snd ?p) (fst ?p) (?n # order s)"
    by (rule dll_push_front[OF d1]) (use nin in auto)
  have dat: "map data (snd ?p) = map data ?h1"
    using data_push_front[of "(dllist s, ?h1)" ?n] by simp
  have datn: "data (snd ?p ! ?n) = \<lparr>item_key = k, item_value = v\<rparr>"
    using data_nth[OF dat, of ?n] by simp
  have datx: "\<forall>x\<in>set (order s). data (snd ?p ! x) = data (heap s ! x)"
  proof
    fix x assume "x \<in> set (order s)"
    then have "x < ?n" using bds by simp
    then show "data (snd ?p ! x) = data (heap s ! x)"
      using data_nth[OF dat, of x] by (simp add: nth_append)
  qed
  have kn: "k \<notin> fst ` set (dict s)" using miss by (simp add: map_of_eq_None_iff)
  have upd: "AList.update k ?n (dict s) = dict s @ [(k, ?n)]" by (rule update_new[OF kn])
  have keq: "map (\<lambda>a. item_key (data (snd ?p ! a))) (order s) =
      map (\<lambda>a. item_key (data (heap s ! a))) (order s)"
    using datx by (intro map_cong) auto
  have e: "map (\<lambda>a. item_key (data (snd ?p ! a))) (?n # order s) =
      k # map (\<lambda>a. item_key (data (heap s ! a))) (order s)"
    by (simp add: keq datn)
  have kn2: "k \<notin> set (map (\<lambda>a. item_key (data (heap s ! a))) (order s))"
    using M(1) by (simp add: keys_map)
  have d2: "distinct (map (\<lambda>a. item_key (data (snd ?p ! a))) (?n # order s))"
    unfolding e using kn2 D(2) by simp
  have 1: "dll (heap ?s) (dllist ?s) (?n # order s)" using d by simp
  have 2: "distinct (map (\<lambda>a. item_key (data (heap ?s ! a))) (?n # order s))"
    using d2 by simp
  have 3: "distinct (map fst (dict ?s))" using D(3) by (simp add: distinct_update)
  have 4: "\<forall>(k', a)\<in>set (dict ?s). a \<in> set (?n # order s) \<and> item_key (data (heap ?s ! a)) = k'"
    using D(4) datx datn by (auto simp: upd)
  have 5: "\<forall>a\<in>set (?n # order s). map_of (dict ?s) (item_key (data (heap ?s ! a))) = Some a"
  proof
    fix a assume a: "a \<in> set (?n # order s)"
    show "map_of (dict ?s) (item_key (data (heap ?s ! a))) = Some a"
    proof (cases "a = ?n")
      case True
      then show ?thesis using datn by (simp add: update_conv')
    next
      case False
      with a have ao: "a \<in> set (order s)" by simp
      then have "item_key (data (heap s ! a)) \<in> set (keys s)" by (auto simp: keys_map)
      with M(1) have "item_key (data (heap s ! a)) \<noteq> k" by auto
      with D(5) datx ao show ?thesis by (simp add: update_conv')
    qed
  qed
  have 6: "length (dict ?s) = length (?n # order s)" using D(6) by (simp add: upd)
  have 7: "max_size ?s = Some m" using m by simp
  have 8: "int (length (dict ?s)) \<le> m" using nf m by (simp add: full_def upd)
  show "cache_inv (insert_new s k v)"
    unfolding i by (rule cache_invI(1)[OF 1 2 3 4 5 6 7 m(2) 8])
  have o: "order ?s = ?n # order s" by (rule cache_invI(2)[OF 1 2 3 4 5 6 7 m(2) 8])
  then show "order (insert_new s k v) = ?n # order s" by (simp add: i)
  have "map (\<lambda>a. (item_key (data (snd ?p ! a)), item_value (data (snd ?p ! a)))) (order s) = entries s"
    unfolding entries_map using datx by (intro map_cong) auto
  then have "entries ?s = (k, v) # entries s"
    unfolding entries_map[of ?s] o using datn by simp
  then show "entries (insert_new s k v) = (k, v) # entries s" by (simp add: i)
  show "dict (insert_new s k v) = dict s @ [(k, ?n)]" by (simp add: i upd)
  show "max_size (insert_new s k v) = max_size s" by (simp add: i)
qed

subsection \<open>Eviction\<close>

lemma full_nonempty:
  assumes inv: "cache_inv s" and f: "full s"
  shows "order s \<noteq> []"
proof -
  from cache_invD(7)[OF inv] obtain m where "max_size s = Some m" "0 < m" by auto
  with f have "dict s \<noteq> []" by (auto simp: full_def)
  with cache_invD(6)[OF inv] show ?thesis by auto
qed

lemma evict_inv:
  assumes inv: "cache_inv s" and f: "full s"
  shows "\<exists>s1. evict s = Inr s1 \<and> cache_inv s1 \<and> \<not> full s1 \<and>
           order s1 = butlast (order s) \<and> entries s1 = butlast (entries s) \<and>
           dict s1 = AList.delete (last (keys s)) (dict s) \<and> max_size s1 = max_size s"
proof -
  let ?as = "order s"
  let ?a = "last ?as"
  let ?e = "eject (dllist s, heap s) ?a"
  let ?kl = "item_key (data (heap s ! ?a))"
  let ?s = "s\<lparr>dllist := fst ?e, heap := snd ?e, dict := AList.delete ?kl (dict s)\<rparr>"
  note D = cache_invD[OF inv]
  from D(7) obtain m where m: "max_size s = Some m" "0 < m" "int (length (dict s)) \<le> m"
    by auto
  have ne: "?as \<noteq> []" by (rule full_nonempty[OF inv f])
  then have ain: "?a \<in> set ?as" by simp
  have bds: "\<forall>x\<in>set ?as. x < length (heap s)" using D(1) by (simp add: dll_def)
  have dist: "distinct ?as" using D(1) by (simp add: dll_def)
  have pb: "pop_back (dllist s, heap s) = Inr (?a, ?e)" by (rule pop_back_dll(1)[OF D(1) ne])
  have d: "dll (snd ?e) (fst ?e) (butlast ?as)" by (rule pop_back_dll(2)[OF D(1) ne])
  have dat: "map data (snd ?e) = map data (heap s)"
    using data_eject[of "(dllist s, heap s)" ?a] by simp
  have datx: "\<forall>x\<in>set ?as. data (snd ?e ! x) = data (heap s ! x)"
    using data_nth[OF dat] bds by auto
  have kin: "map_of (dict s) ?kl = Some ?a" using D(5) ain by auto
  have kd0: "item_key (data (snd ?e ! ?a)) = ?kl" using datx ain by simp
  have ev: "evict s = Inr ?s"
    by (simp add: evict_def Let_def dict_del_def pb kd0 kin split_beta)
  have sub: "set (butlast ?as) \<subseteq> set ?as" by (auto dest: in_set_butlastD)
  have nl: "?a \<notin> set (butlast ?as)"
    using dist ne by (metis append_butlast_last_id distinct_append disjoint_iff list.set_intros(1) distinct.simps(2))
  have inj: "inj_on (\<lambda>a. item_key (data (heap s ! a))) (set ?as)"
    using D(2) by (simp add: distinct_map)
  have kne: "\<forall>x\<in>set (butlast ?as). item_key (data (heap s ! x)) \<noteq> ?kl"
  proof
    fix x assume x: "x \<in> set (butlast ?as)"
    then have "x \<in> set ?as" "x \<noteq> ?a" using sub nl by auto
    with inj ain show "item_key (data (heap s ! x)) \<noteq> ?kl" by (auto simp: inj_on_def)
  qed
  have keq: "map (\<lambda>a. item_key (data (snd ?e ! a))) (butlast ?as) =
      map (\<lambda>a. item_key (data (heap s ! a))) (butlast ?as)"
    using datx sub by (intro map_cong) auto
  have "distinct (map (\<lambda>a. item_key (data (heap s ! a))) (butlast ?as))"
    using D(2) by (simp add: map_butlast distinct_butlast)
  then have d2: "distinct (map (\<lambda>a. item_key (data (snd ?e ! a))) (butlast ?as))"
    by (simp only: keq)
  have 1: "dll (heap ?s) (dllist ?s) (butlast ?as)" using d by simp
  have 2: "distinct (map (\<lambda>a. item_key (data (heap ?s ! a))) (butlast ?as))"
    using d2 by simp
  have 3: "distinct (map fst (dict ?s))" using D(3) by (simp add: distinct_delete)
  have 4: "\<forall>(k', a)\<in>set (dict ?s). a \<in> set (butlast ?as) \<and> item_key (data (heap ?s ! a)) = k'"
  proof (clarify)
    fix k' a assume "(k', a) \<in> set (dict ?s)"
    then have in_d: "(k', a) \<in> set (dict s)" and kk: "k' \<noteq> ?kl"
      by (auto simp: AList.delete_eq)
    with D(4) have a: "a \<in> set ?as" and ka: "item_key (data (heap s ! a)) = k'" by auto
    with kk have "a \<noteq> ?a" by auto
    with a ne have "a \<in> set (butlast ?as)"
      by (metis append_butlast_last_id set_ConsD rotate1.simps(2) set_rotate1)
    with a ka datx show "a \<in> set (butlast ?as) \<and> item_key (data (heap ?s ! a)) = k'"
      by simp
  qed
  have 5: "\<forall>a\<in>set (butlast ?as). map_of (dict ?s) (item_key (data (heap ?s ! a))) = Some a"
  proof
    fix a assume a: "a \<in> set (butlast ?as)"
    then have "a \<in> set ?as" using sub by auto
    with a kne D(5) datx
    show "map_of (dict ?s) (item_key (data (heap ?s ! a))) = Some a" by simp
  qed
  have kd: "?kl \<in> fst ` set (dict s)" using map_of_SomeD[OF kin] by force
  have ld: "length (AList.delete ?kl (dict s)) = length (dict s) - 1"
    by (rule length_delete_present[OF D(3) kd])
  have 6: "length (dict ?s) = length (butlast ?as)" using D(6) ld by simp
  have 7: "max_size ?s = Some m" using m by simp
  have pos: "0 < length (dict s)" using D(6) ne by simp
  have 8: "int (length (dict ?s)) \<le> m" using m ld by simp
  have "int (length (dict s) - 1) < m" using m(3) pos by linarith
  then have nf: "\<not> full ?s" using m(1) ld by (simp add: full_def)
  have c: "cache_inv ?s" by (rule cache_invI(1)[OF 1 2 3 4 5 6 7 m(2) 8])
  have o: "order ?s = butlast ?as" by (rule cache_invI(2)[OF 1 2 3 4 5 6 7 m(2) 8])
  have "map (\<lambda>a. (item_key (data (snd ?e ! a)), item_value (data (snd ?e ! a)))) (butlast ?as) =
      map (\<lambda>a. (item_key (data (heap s ! a)), item_value (data (heap s ! a)))) (butlast ?as)"
    using datx sub by (intro map_cong) auto
  then have en: "entries ?s = butlast (entries s)"
    unfolding entries_map[of ?s] o by (simp add: entries_map[of s] map_butlast)
  have lk: "last (keys s) = ?kl" using ne by (simp add: keys_map last_map)
  show ?thesis using ev c nf o en lk by simp
qed

lemma put_miss:
  assumes inv: "cache_inv s" and miss: "map_of (dict s) k = None"
  shows "cache_inv (snd (put s k v))"
    and "fst (put s k v) = NoValue"
    and "entries (snd (put s k v)) = (k, v) # (if full s then butlast (entries s) else entries s)"
    and "max_size (snd (put s k v)) = max_size s"
    and "map fst (dict (snd (put s k v))) =
           (if full s then removeAll (last (keys s)) (map fst (dict s)) else map fst (dict s)) @ [k]"
proof -
  have "cache_inv (snd (put s k v)) \<and> fst (put s k v) = NoValue \<and>
      entries (snd (put s k v)) = (k, v) # (if full s then butlast (entries s) else entries s) \<and>
      max_size (snd (put s k v)) = max_size s \<and>
      map fst (dict (snd (put s k v))) =
           (if full s then removeAll (last (keys s)) (map fst (dict s)) else map fst (dict s)) @ [k]"
  proof (cases "full s")
    case False
    then have p: "put s k v = (NoValue, insert_new s k v)" using miss by (simp add: put_def)
    show ?thesis using insert_new_inv[OF inv miss False, of v] False by (simp add: p)
  next
    case True
    from evict_inv[OF inv True] obtain s1 where s1: "evict s = Inr s1" "cache_inv s1" "\<not> full s1"
      "order s1 = butlast (order s)" "entries s1 = butlast (entries s)"
      "dict s1 = AList.delete (last (keys s)) (dict s)" "max_size s1 = max_size s"
      by blast
    have p: "put s k v = (NoValue, insert_new s1 k v)"
      using miss True s1(1) by (simp add: put_def)
    have miss1: "map_of (dict s1) k = None"
      using miss by (simp add: s1(6) delete_conv')
    show ?thesis
      using insert_new_inv[OF s1(2) miss1 s1(3), of v] True s1
      by (simp add: p delete_keys)
  qed
  then show "cache_inv (snd (put s k v))" "fst (put s k v) = NoValue"
    "entries (snd (put s k v)) = (k, v) # (if full s then butlast (entries s) else entries s)"
    "max_size (snd (put s k v)) = max_size s"
    "map fst (dict (snd (put s k v))) =
           (if full s then removeAll (last (keys s)) (map fst (dict s)) else map fst (dict s)) @ [k]"
    by simp_all
qed

subsection \<open>Calls and sequences of calls\<close>

lemma init_inv:
  assumes "LRUCache_init c = Inr s0"
  shows "cache_inv s0" and "entries s0 = []" and "dict s0 = []"
    and "\<exists>n. as_int c = Some n \<and> 0 < n \<and> max_size s0 = Some n"
proof -
  from assms obtain n where n: "as_int c = Some n" "0 < n"
    and s0: "s0 = \<lparr>max_size = Some n, dict = [], dllist = DLList_init, heap = []\<rparr>"
    by (auto simp: LRUCache_init_def split: option.splits if_splits)
  show "cache_inv s0"
    using n(2)
    by (simp add: s0 cache_inv_def order_def keys_def entries_def dll_def DLList_init_def
        first_opt_def last_opt_def)
  show "entries s0 = []" by (simp add: s0 entries_def order_def)
  show "dict s0 = []" by (simp add: s0)
  show "\<exists>n. as_int c = Some n \<and> 0 < n \<and> max_size s0 = Some n" using n by (simp add: s0)
qed

lemma length_entries: "cache_inv s \<Longrightarrow> length (entries s) = length (dict s)"
  using cache_invD(6)[of s] by (simp add: entries_def)

lemma full_iff:
  assumes "cache_inv s" "max_size s = Some m"
  shows "full s = (int (length (entries s)) = m)"
  using cache_invD(7)[OF assms(1)] assms(2) length_entries[OF assms(1)]
  by (auto simp: full_def)

lemma present_iff:
  assumes "cache_inv s"
  shows "(map_of (dict s) k = None) = (map_of (entries s) k = None)"
proof (cases "map_of (dict s) k")
  case None
  then show ?thesis using miss_facts(2)[OF assms None] by simp
next
  case (Some a)
  then show ?thesis using hit_facts(4)[OF assms Some] by simp
qed

lemma get_refines:
  assumes inv: "cache_inv s"
  shows "cache_inv (snd (get s k d))"
    and "entries (snd (get s k d)) = spec_get (entries s) k"
    and "fst (get s k d) = spec_result (entries s) k d"
    and "max_size (snd (get s k d)) = max_size s"
    and "dict (snd (get s k d)) = dict s"
proof -
  have "cache_inv (snd (get s k d)) \<and> entries (snd (get s k d)) = spec_get (entries s) k \<and>
      fst (get s k d) = spec_result (entries s) k d \<and> max_size (snd (get s k d)) = max_size s \<and>
      dict (snd (get s k d)) = dict s"
  proof (cases "map_of (dict s) k")
    case None
    with miss_facts(2)[OF inv None] inv show ?thesis
      by (cases d) (simp_all add: get_def spec_get_def spec_result_def)
  next
    case (Some a)
    from get_hit[OF inv Some, of d] show ?thesis by simp
  qed
  then show "cache_inv (snd (get s k d))" "entries (snd (get s k d)) = spec_get (entries s) k"
    "fst (get s k d) = spec_result (entries s) k d" "max_size (snd (get s k d)) = max_size s"
    "dict (snd (get s k d)) = dict s"
    by simp_all
qed

lemma put_refines:
  assumes inv: "cache_inv s" and m: "max_size s = Some m"
  shows "cache_inv (snd (put s k v))"
    and "entries (snd (put s k v)) = spec_put m (entries s) k v"
    and "fst (put s k v) = NoValue"
    and "max_size (snd (put s k v)) = max_size s"
proof -
  have "cache_inv (snd (put s k v)) \<and> entries (snd (put s k v)) = spec_put m (entries s) k v \<and>
      fst (put s k v) = NoValue \<and> max_size (snd (put s k v)) = max_size s"
  proof (cases "map_of (dict s) k")
    case None
    from put_miss[OF inv None, of v] miss_facts(2)[OF inv None] full_iff[OF inv m]
    show ?thesis by (simp add: spec_put_def)
  next
    case (Some a)
    from put_hit[OF inv Some, of v] hit_facts(4)[OF inv Some]
    show ?thesis by (simp add: spec_put_def)
  qed
  then show "cache_inv (snd (put s k v))" "entries (snd (put s k v)) = spec_put m (entries s) k v"
    "fst (put s k v) = NoValue" "max_size (snd (put s k v)) = max_size s"
    by simp_all
qed

lemma call_refines:
  assumes inv: "cache_inv s" and m: "max_size s = Some m"
  shows "cache_inv (snd (dll_call s c))"
    and "max_size (snd (dll_call s c)) = Some m"
    and "entries (snd (dll_call s c)) = snd (spec_call m (entries s) c)"
    and "fst (dll_call s c) = fst (spec_call m (entries s) c)"
  using get_refines[OF inv] put_refines[OF inv m] m
  by (cases c; simp)+

lemma dll_exec_snoc: "dll_exec s (cs @ [c]) = snd (dll_call (dll_exec s cs) c)"
  by (simp add: dll_exec_def)

lemma dll_exec_Cons: "dll_exec s (c # cs) = dll_exec (snd (dll_call s c)) cs"
  by (simp add: dll_exec_def)

lemma spec_exec_Cons: "spec_exec m es (c # cs) = spec_exec m (snd (spec_call m es c)) cs"
  by (simp add: spec_exec_def)

lemma exec_refines:
  assumes "cache_inv s" "max_size s = Some m"
  shows "cache_inv (dll_exec s cs) \<and> max_size (dll_exec s cs) = Some m \<and>
         entries (dll_exec s cs) = spec_exec m (entries s) cs \<and>
         dll_outputs s cs = spec_outputs m (entries s) cs"
  using assms
proof (induction cs arbitrary: s)
  case Nil
  then show ?case by (simp add: dll_exec_def spec_exec_def)
next
  case (Cons c cs)
  note R = call_refines[OF Cons.prems, of c]
  from Cons.IH[OF R(1) R(2)] R(3) R(4) show ?case
    by (simp add: dll_exec_Cons spec_exec_Cons)
qed

subsection \<open>The list is ordered by last access\<close>

lemma keys_spec_get:
  "map fst (spec_get es k) =
     (if k \<in> set (map fst es) then k # removeAll k (map fst es) else map fst es)"
proof (cases "map_of es k")
  case None
  then have "k \<notin> fst ` set es" by (simp add: map_of_eq_None_iff)
  then show ?thesis by (simp add: spec_get_def None)
next
  case (Some v)
  then have "k \<in> fst ` set es" using map_of_SomeD[of es k v] by force
  with Some show ?thesis by (simp add: spec_get_def delete_keys)
qed

lemma keys_spec_put:
  "map fst (spec_put m es k v) =
     (if k \<in> set (map fst es) then k # removeAll k (map fst es)
      else k # (if int (length es) = m then butlast (map fst es) else map fst es))"
proof (cases "map_of es k")
  case None
  then have "k \<notin> fst ` set es" by (simp add: map_of_eq_None_iff)
  then show ?thesis by (simp add: spec_put_def None map_butlast)
next
  case (Some v)
  then have "k \<in> fst ` set es" using map_of_SomeD[of es k v] by force
  with Some show ?thesis by (simp add: spec_put_def delete_keys)
qed

lemma last_access_snoc:
  "last_access (cs @ [c]) k = (if call_key c = k then Suc (length cs) else last_access cs k)"
  by (simp add: last_access_def)

lemma last_access_le: "last_access cs k \<le> length cs"
  using length_dropWhile_le[of "\<lambda>c. call_key c \<noteq> k" "rev cs"] by (simp add: last_access_def)

lemma recent_front:
  assumes s: "sorted_wrt (\<lambda>a b. last_access cs b < last_access cs a) ks"
    and k: "call_key c = k" "k \<notin> set ks"
  shows "sorted_wrt (\<lambda>a b. last_access (cs @ [c]) b < last_access (cs @ [c]) a) (k # ks)"
proof -
  have "sorted_wrt (\<lambda>a b. last_access (cs @ [c]) b < last_access (cs @ [c]) a) ks"
    using s k by (intro sorted_wrt_mono_rel[OF _ s]) (auto simp: last_access_snoc)
  moreover have "\<forall>x\<in>set ks. last_access (cs @ [c]) x < last_access (cs @ [c]) k"
    using k last_access_le[of cs] by (auto simp: last_access_snoc less_Suc_eq_le)
  ultimately show ?thesis by simp
qed

lemma recent_same:
  assumes s: "sorted_wrt (\<lambda>a b. last_access cs b < last_access cs a) ks"
    and k: "call_key c \<notin> set ks"
  shows "sorted_wrt (\<lambda>a b. last_access (cs @ [c]) b < last_access (cs @ [c]) a) ks"
  using k by (intro sorted_wrt_mono_rel[OF _ s]) (auto simp: last_access_snoc)

lemma sorted_wrt_removeAll: "sorted_wrt P xs \<Longrightarrow> sorted_wrt P (removeAll k xs)"
  by (simp add: removeAll_filter_not_eq sorted_wrt_filter)

lemma sorted_wrt_butlast: "sorted_wrt P xs \<Longrightarrow> sorted_wrt P (butlast xs)"
  by (simp add: butlast_conv_take)

lemma recent_spec_call:
  assumes s: "sorted_wrt (\<lambda>a b. last_access cs b < last_access cs a) (map fst es)"
    and d: "distinct (map fst es)"
  shows "sorted_wrt (\<lambda>a b. last_access (cs @ [c]) b < last_access (cs @ [c]) a)
           (map fst (snd (spec_call m es c)))"
proof -
  let ?k = "call_key c"
  have hit: "sorted_wrt (\<lambda>a b. last_access (cs @ [c]) b < last_access (cs @ [c]) a)
      (?k # removeAll ?k (map fst es))"
    by (rule recent_front[OF sorted_wrt_removeAll[OF s]]) simp_all
  have nb: "?k \<notin> set (map fst es) \<Longrightarrow> ?k \<notin> set (butlast (map fst es))"
    by (auto dest: in_set_butlastD)
  have new1: "?k \<notin> set (map fst es) \<Longrightarrow>
      sorted_wrt (\<lambda>a b. last_access (cs @ [c]) b < last_access (cs @ [c]) a) (?k # map fst es)"
    by (rule recent_front[OF s]) simp_all
  have new2: "?k \<notin> set (map fst es) \<Longrightarrow>
      sorted_wrt (\<lambda>a b. last_access (cs @ [c]) b < last_access (cs @ [c]) a)
        (?k # butlast (map fst es))"
    by (rule recent_front[OF sorted_wrt_butlast[OF s]]) (use nb in simp_all)
  have miss: "?k \<notin> set (map fst es) \<Longrightarrow>
      sorted_wrt (\<lambda>a b. last_access (cs @ [c]) b < last_access (cs @ [c]) a) (map fst es)"
    by (rule recent_same[OF s])
  show ?thesis
  proof (cases c)
    case (Get k)
    with hit miss show ?thesis by (simp add: keys_spec_get del: sorted_wrt.simps)
  next
    case (GetDefault k dv)
    with hit miss show ?thesis by (simp add: keys_spec_get del: sorted_wrt.simps)
  next
    case (Put k v)
    with hit new1 new2 show ?thesis by (simp add: keys_spec_put del: sorted_wrt.simps)
  qed
qed

lemma dll_recency:
  assumes "LRUCache_init c = Inr s0"
  shows "sorted_wrt (\<lambda>a b. last_access cs b < last_access cs a) (keys (dll_exec s0 cs))"
proof (induction cs rule: rev_induct)
  case Nil
  then show ?case using init_inv(2)[OF assms] by (simp add: dll_exec_def keys_def)
next
  case (snoc x xs)
  from init_inv[OF assms] obtain m where m: "max_size s0 = Some m" and i0: "cache_inv s0" by auto
  from exec_refines[OF i0 m, of xs]
  have inv: "cache_inv (dll_exec s0 xs)" and mx: "max_size (dll_exec s0 xs) = Some m" by simp_all
  have d: "distinct (map fst (entries (dll_exec s0 xs)))"
    using inv by (simp add: cache_inv_def keys_def)
  from recent_spec_call[OF snoc.IH[unfolded keys_def] d, of x m]
  show ?case
    by (simp add: dll_exec_snoc keys_def call_refines(3)[OF inv mx])
qed

section \<open>The dict-only cache\<close>

subsection \<open>Its invariant\<close>

lemma length_update_le: "length (AList.update k v al) \<le> Suc (length al)"
  by (induction al) auto

lemma length_delete_less: "k \<in> fst ` set al \<Longrightarrow> length (AList.delete k al) < length al"
proof (induction al)
  case Nil
  then show ?case by simp
next
  case (Cons p ps)
  show ?case
  proof (cases "fst p = k")
    case True
    then show ?thesis using length_delete_le[of k ps] by (cases p) (simp add: less_Suc_eq_le)
  next
    case False
    with Cons.prems have "k \<in> fst ` set ps" by auto
    from Cons.IH[OF this] False show ?thesis by (cases p) simp
  qed
qed

lemma main_init_inv: "main_init c = Inr t0 \<Longrightarrow> main_inv t0 \<and> m_dict t0 = [] \<and> as_int c = Some (m_max_size t0)"
  by (auto simp: main_init_def main_inv_def split: option.splits if_splits)

lemma main_get_inv:
  assumes "main_inv t"
  shows "main_inv (snd (main_get t k d))" and "m_max_size (snd (main_get t k d)) = m_max_size t"
proof -
  show "m_max_size (snd (main_get t k d)) = m_max_size t"
    by (simp add: main_get_def split: option.splits)
  show "main_inv (snd (main_get t k d))"
  proof (cases "map_of (m_dict t) k")
    case None
    with assms show ?thesis by (simp add: main_get_def split: option.splits)
  next
    case (Some v)
    then have kin: "k \<in> fst ` set (m_dict t)" using map_of_SomeD[of "m_dict t" k v] by force
    have "length (AList.update k v (AList.delete k (m_dict t))) \<le> Suc (length (AList.delete k (m_dict t)))"
      by (rule length_update_le)
    also have "\<dots> \<le> length (m_dict t)" using length_delete_less[OF kin] by simp
    finally show ?thesis using assms Some
      by (simp add: main_get_def main_inv_def distinct_update distinct_delete)
  qed
qed

lemma main_put_inv:
  assumes "main_inv t"
  shows "main_inv (snd (main_put t k v))" and "m_max_size (snd (main_put t k v)) = m_max_size t"
    and "fst (main_put t k v) = NoValue"
proof -
  show "m_max_size (snd (main_put t k v)) = m_max_size t"
    by (simp add: main_put_def split: list.splits)
  show "fst (main_put t k v) = NoValue"
    using assms by (auto simp: main_put_def main_inv_def main_full_def split: list.splits)
  show "main_inv (snd (main_put t k v))"
  proof (cases "main_full t")
    case False
    have "length (AList.update k v (m_dict t)) \<le> Suc (length (m_dict t))"
      by (rule length_update_le)
    with False assms show ?thesis
      by (simp add: main_put_def main_inv_def main_full_def distinct_update)
  next
    case True
    with assms obtain lk x rest where d: "m_dict t = (lk, x) # rest"
      by (cases "m_dict t") (auto simp: main_inv_def main_full_def)
    have "length (AList.update k v (AList.delete lk (m_dict t))) \<le> Suc (length (AList.delete lk (m_dict t)))"
      by (rule length_update_le)
    also have "\<dots> \<le> length (m_dict t)"
      using length_delete_less[of lk "m_dict t"] by (simp add: d)
    finally show ?thesis using assms True d
      by (simp add: main_put_def main_inv_def distinct_update distinct_delete del: delete_simps)
  qed
qed

lemma main_call_inv:
  assumes "main_inv t"
  shows "main_inv (snd (main_call t c))" and "m_max_size (snd (main_call t c)) = m_max_size t"
  using main_get_inv[OF assms] main_put_inv[OF assms] by (cases c; simp)+

lemma main_exec_snoc: "main_exec t (cs @ [c]) = snd (main_call (main_exec t cs) c)"
  by (simp add: main_exec_def)

lemma main_exec_Cons: "main_exec t (c # cs) = main_exec (snd (main_call t c)) cs"
  by (simp add: main_exec_def)

lemma main_exec_inv:
  "main_inv t \<Longrightarrow> main_inv (main_exec t cs) \<and> m_max_size (main_exec t cs) = m_max_size t"
proof (induction cs arbitrary: t)
  case Nil
  then show ?case by (simp add: main_exec_def)
next
  case (Cons c cs)
  from Cons.IH[OF main_call_inv(1)[OF Cons.prems, of c]] main_call_inv(2)[OF Cons.prems, of c]
  show ?case by (simp add: main_exec_Cons)
qed

subsection \<open>It implements the specification's cache while no put is made on a present key\<close>

lemma map_of_rev_distinct: "distinct (map fst xs) \<Longrightarrow> map_of (rev xs) k = map_of xs k"
proof (induction xs)
  case Nil
  then show ?case by simp
next
  case (Cons p ps)
  then have "fst p \<notin> fst ` set ps" by simp
  then have "map_of ps (fst p) = None" by (simp add: map_of_eq_None_iff)
  with Cons show ?case by (cases p) (auto simp: map_add_def split: option.splits)
qed

lemma rev_delete: "rev (AList.delete k al) = AList.delete k (rev al)"
  by (simp add: AList.delete_eq rev_filter)

lemma main_get_refines:
  assumes "main_inv t"
  shows "main_entries (snd (main_get t k d)) = spec_get (main_entries t) k"
    and "fst (main_get t k d) = spec_result (main_entries t) k d"
proof -
  have dist: "distinct (map fst (m_dict t))" using assms by (simp add: main_inv_def)
  have mo: "map_of (main_entries t) k = map_of (m_dict t) k"
    unfolding main_entries_def by (rule map_of_rev_distinct[OF dist])
  have up: "\<And>v. AList.update k v (AList.delete k (m_dict t)) = AList.delete k (m_dict t) @ [(k, v)]"
    by (rule update_new) (rule delete_notin_dom)
  show "main_entries (snd (main_get t k d)) = spec_get (main_entries t) k"
    by (cases "map_of (m_dict t) k"; cases d)
       (simp_all add: main_get_def spec_get_def mo up, simp_all add: main_entries_def rev_delete)
  show "fst (main_get t k d) = spec_result (main_entries t) k d"
    by (cases "map_of (m_dict t) k"; cases d) (simp_all add: main_get_def spec_result_def mo)
qed

lemma main_put_refines:
  assumes inv: "main_inv t" and miss: "map_of (m_dict t) k = None"
  shows "main_entries (snd (main_put t k v)) = spec_put (m_max_size t) (main_entries t) k v"
proof -
  have dist: "distinct (map fst (m_dict t))" using inv by (simp add: main_inv_def)
  have mo: "map_of (main_entries t) k = None"
    unfolding main_entries_def using map_of_rev_distinct[OF dist, of k] miss by simp
  have kn: "k \<notin> fst ` set (m_dict t)" using miss by (simp add: map_of_eq_None_iff)
  show ?thesis
  proof (cases "main_full t")
    case False
    then have "int (length (m_dict t)) \<noteq> m_max_size t" by (simp add: main_full_def)
    with False show ?thesis
      by (simp add: main_put_def spec_put_def mo[unfolded main_entries_def] update_new[OF kn]
          main_entries_def)
  next
    case True
    with inv have eq: "int (length (m_dict t)) = m_max_size t"
      by (simp add: main_full_def main_inv_def)
    from inv True obtain lk x rest where d: "m_dict t = (lk, x) # rest"
      by (cases "m_dict t") (auto simp: main_inv_def main_full_def)
    have "lk \<notin> fst ` set rest" using dist d by simp
    then have del: "AList.delete lk (m_dict t) = rest" by (simp add: d)
    have "k \<notin> fst ` set rest" using kn d by simp
    then have up: "AList.update k v rest = rest @ [(k, v)]" by (rule update_new)
    have "main_entries (snd (main_put t k v)) = (k, v) # rev rest"
      using True by (simp add: main_put_def d main_entries_def up del[unfolded d] del: delete_simps)
    moreover have "butlast (main_entries t) = rev rest" by (simp add: main_entries_def d)
    ultimately show ?thesis using eq
      by (simp add: spec_put_def mo[unfolded main_entries_def] main_entries_def)
  qed
qed

lemma main_refines_without_put_hits:
  assumes "main_inv t" "no_put_hit (m_max_size t) (main_entries t) cs"
  shows "main_entries (main_exec t cs) = spec_exec (m_max_size t) (main_entries t) cs \<and>
         main_outputs t cs = spec_outputs (m_max_size t) (main_entries t) cs"
  using assms
proof (induction cs arbitrary: t)
  case Nil
  then show ?case by (simp add: main_exec_def spec_exec_def)
next
  case (Cons c cs)
  note I = main_call_inv[OF Cons.prems(1), of c]
  have dist: "distinct (map fst (m_dict t))" using Cons.prems(1) by (simp add: main_inv_def)
  have mo: "\<And>k. map_of (main_entries t) k = map_of (m_dict t) k"
    unfolding main_entries_def by (rule map_of_rev_distinct[OF dist])
  have step: "main_entries (snd (main_call t c)) = snd (spec_call (m_max_size t) (main_entries t) c)"
    and out: "fst (main_call t c) = fst (spec_call (m_max_size t) (main_entries t) c)"
    and rest: "no_put_hit (m_max_size t) (snd (spec_call (m_max_size t) (main_entries t) c)) cs"
    using Cons.prems main_get_refines[OF Cons.prems(1)] main_put_refines[OF Cons.prems(1)]
      main_put_inv(3)[OF Cons.prems(1)]
    by (cases c; simp add: mo)+
  from Cons.IH[OF I(1)] rest step out I(2) show ?case
    by (simp add: main_exec_Cons spec_exec_Cons)
qed

lemma variants_agree_without_put_hits:
  assumes s0: "LRUCache_init c = Inr s0" and t0: "main_init c = Inr t0"
    and nh: "no_put_hit (m_max_size t0) [] cs"
  shows "main_outputs t0 cs = dll_outputs s0 cs"
    and "main_entries (main_exec t0 cs) = entries (dll_exec s0 cs)"
proof -
  from init_inv[OF s0] obtain n where n: "as_int c = Some n" "max_size s0 = Some n"
    and i0: "cache_inv s0" and e0: "entries s0 = []" by auto
  from main_init_inv[OF t0] n have j0: "main_inv t0" and f0: "main_entries t0 = []"
    and m0: "m_max_size t0 = n" by (simp_all add: main_entries_def)
  from exec_refines[OF i0 n(2), of cs] main_refines_without_put_hits[OF j0, of cs] nh
  show "main_outputs t0 cs = dll_outputs s0 cs"
    and "main_entries (main_exec t0 cs) = entries (dll_exec s0 cs)"
    by (simp_all add: e0 f0 m0)
qed

subsection \<open>States reached from a new cache\<close>

lemma reach_inv:
  assumes "LRUCache_init c = Inr s0"
  shows "cache_inv (dll_exec s0 cs)"
    and "max_size (dll_exec s0 cs) = max_size s0"
    and "dll_outputs s0 cs = spec_outputs (the (max_size s0)) [] cs"
    and "entries (dll_exec s0 cs) = spec_exec (the (max_size s0)) [] cs"
proof -
  from init_inv[OF assms] obtain n where n: "cache_inv s0" "max_size s0 = Some n" "entries s0 = []"
    by auto
  from exec_refines[OF n(1,2), of cs] n(2,3)
  show "cache_inv (dll_exec s0 cs)" "max_size (dll_exec s0 cs) = max_size s0"
    "dll_outputs s0 cs = spec_outputs (the (max_size s0)) [] cs"
    "entries (dll_exec s0 cs) = spec_exec (the (max_size s0)) [] cs"
    by simp_all
qed

lemma index_keys:
  assumes "cache_inv s"
  shows "set (map fst (dict s)) = set (keys s)"
proof -
  note D = cache_invD[OF assms]
  show ?thesis
  proof (intro set_eqI iffI)
    fix k assume "k \<in> set (map fst (dict s))"
    then obtain a where "(k, a) \<in> set (dict s)" by auto
    with D(4) show "k \<in> set (keys s)" by (force simp: keys_map)
  next
    fix k assume "k \<in> set (keys s)"
    then obtain a where "a \<in> set (order s)" "item_key (data (heap s ! a)) = k"
      by (auto simp: keys_map)
    with D(5) have "map_of (dict s) k = Some a" by auto
    from map_of_SomeD[OF this] show "k \<in> set (map fst (dict s))" by force
  qed
qed

lemma spec_outputs_no_empty_error: "Raise IsEmptyError \<notin> set (spec_outputs m es cs)"
proof (induction cs arbitrary: es)
  case Nil
  then show ?case by simp
next
  case (Cons c cs)
  then show ?case
    by (cases c) (auto simp: spec_result_def split: option.splits)
qed

lemma main_get_hit:
  assumes "map_of (m_dict t) k = Some v"
  shows "main_get t k d = (Value v, t\<lparr>m_dict := AList.delete k (m_dict t) @ [(k, v)]\<rparr>)"
proof -
  have "AList.update k v (AList.delete k (m_dict t)) = AList.delete k (m_dict t) @ [(k, v)]"
    by (rule update_new) (rule delete_notin_dom)
  with assms show ?thesis by (simp add: main_get_def)
qed

section \<open>What put and get do to the linked-list cache\<close>

text \<open>
  In the linked-list cache, from any state reached from a new cache: \<open>put\<close> on a present
  key replaces the value, moves the key to the front and changes neither the index nor the
  count; \<open>put\<close> of a new key on a full cache removes exactly the back key, which every
  other key has been accessed after; the key of a \<open>put\<close> or of a hit is at the front
  afterwards and stays there while the calls are made on that key.
\<close>

lemma dll_put_present:
  assumes i: "LRUCache_init c = Inr s0" and s: "s = dll_exec s0 cs"
    and hit: "k \<in> set (keys s)"
  shows "fst (put s k v) = NoValue"
    and "entries (snd (put s k v)) = (k, v) # AList.delete k (entries s)"
    and "hd (keys (snd (put s k v))) = k"
    and "len (snd (put s k v)) = len s"
    and "set (keys (snd (put s k v))) = set (keys s)"
    and "dict (snd (put s k v)) = dict s"
proof -
  have inv: "cache_inv s" unfolding s by (rule reach_inv(1)[OF i])
  from hit index_keys[OF inv] have "k \<in> fst ` set (dict s)" by simp
  then obtain a where a: "map_of (dict s) k = Some a"
    by (metis map_of_eq_None_iff not_Some_eq)
  note P = put_hit[OF inv a, of v]
  show "fst (put s k v) = NoValue" by (rule P(4))
  show e: "entries (snd (put s k v)) = (k, v) # AList.delete k (entries s)" by (rule P(3))
  show "hd (keys (snd (put s k v))) = k" by (simp add: keys_def e)
  show "dict (snd (put s k v)) = dict s" by (rule P(5))
  then show "len (snd (put s k v)) = len s" by (simp add: len_def)
  show "set (keys (snd (put s k v))) = set (keys s)"
    using hit by (auto simp: keys_def e delete_keys)
qed

lemma dll_put_full_evicts_lru:
  assumes i: "LRUCache_init c = Inr s0" and s: "s = dll_exec s0 cs"
    and miss: "k \<notin> set (keys s)" and f: "full s"
  shows "fst (put s k v) = NoValue"
    and "keys s \<noteq> []"
    and "entries (snd (put s k v)) = (k, v) # butlast (entries s)"
    and "keys (snd (put s k v)) = k # butlast (keys s)"
    and "set (keys (snd (put s k v))) = insert k (set (keys s) - {last (keys s)})"
    and "len (snd (put s k v)) = len s"
    and "\<forall>k'\<in>set (keys s). k' \<noteq> last (keys s) \<longrightarrow>
           last_access cs (last (keys s)) < last_access cs k'"
proof -
  have inv: "cache_inv s" unfolding s by (rule reach_inv(1)[OF i])
  from miss index_keys[OF inv] have m: "map_of (dict s) k = None"
    by (simp add: map_of_eq_None_iff)
  note P = put_miss[OF inv m, of v]
  have d: "distinct (keys s)" using inv by (simp add: cache_inv_def)
  show "fst (put s k v) = NoValue" by (rule P(2))
  show ne: "keys s \<noteq> []" using full_nonempty[OF inv f] by (simp add: keys_map)
  show e: "entries (snd (put s k v)) = (k, v) # butlast (entries s)" using P(3) f by simp
  show ks: "keys (snd (put s k v)) = k # butlast (keys s)" by (simp add: keys_def e map_butlast)
  have bl: "set (butlast (keys s)) = set (keys s) - {last (keys s)}"
    using d ne by (metis remove1_last set_remove1_eq)
  show "set (keys (snd (put s k v))) = insert k (set (keys s) - {last (keys s)})"
    by (simp add: ks bl)
  have "length (entries (snd (put s k v))) = length (entries s)"
    using ne by (simp add: e keys_def)
  then show "len (snd (put s k v)) = len s"
    using length_entries[OF inv] length_entries[OF P(1)] by (simp add: len_def)
  have srt: "sorted_wrt (\<lambda>a b. last_access cs b < last_access cs a) (butlast (keys s) @ [last (keys s)])"
    using dll_recency[OF i, of cs] ne by (simp add: s)
  show "\<forall>k'\<in>set (keys s). k' \<noteq> last (keys s) \<longrightarrow>
           last_access cs (last (keys s)) < last_access cs k'"
    using srt bl by (auto simp: sorted_wrt_append)
qed

lemma dll_front_after_access:
  assumes i: "LRUCache_init c = Inr s0" and s: "s = dll_exec s0 cs"
  shows "hd (keys (snd (put s k v))) = k"
    and "k \<in> set (keys s) \<Longrightarrow> hd (keys (snd (get s k d))) = k"
proof -
  have inv: "cache_inv s" unfolding s by (rule reach_inv(1)[OF i])
  from init_inv[OF i] reach_inv(2)[OF i, of cs] obtain m where m: "max_size s = Some m"
    unfolding s by auto
  show "hd (keys (snd (put s k v))) = k"
    by (simp add: keys_def put_refines(2)[OF inv m] keys_spec_put)
  show "hd (keys (snd (get s k d))) = k" if "k \<in> set (keys s)"
    using that by (simp add: keys_def get_refines(2)[OF inv] keys_spec_get)
qed

lemma dll_front_stays:
  assumes i: "LRUCache_init c = Inr s0" and s: "s = dll_exec s0 cs"
    and fr: "keys s \<noteq> []" "hd (keys s) = k"
    and same: "\<forall>c'\<in>set cs'. call_key c' = k"
  shows "keys (dll_exec s cs') \<noteq> [] \<and> hd (keys (dll_exec s cs')) = k"
  using same
proof (induction cs' rule: rev_induct)
  case Nil
  then show ?case using fr by (simp add: dll_exec_def)
next
  case (snoc x xs)
  then have IH: "keys (dll_exec s xs) \<noteq> []" "hd (keys (dll_exec s xs)) = k"
    and x: "call_key x = k" by simp_all
  have e: "dll_exec s xs = dll_exec s0 (cs @ xs)" by (simp add: s dll_exec_def)
  have inv: "cache_inv (dll_exec s xs)" unfolding e by (rule reach_inv(1)[OF i])
  from init_inv[OF i] reach_inv(2)[OF i, of "cs @ xs"] obtain m
    where m: "max_size (dll_exec s xs) = Some m" unfolding e by auto
  have kin: "k \<in> set (map fst (entries (dll_exec s xs)))"
    using IH by (metis keys_def hd_in_set)
  show ?case
    using x kin
    by (cases x)
      (simp_all add: dll_exec_snoc keys_def get_refines(2)[OF inv] put_refines(2)[OF inv m]
        keys_spec_get keys_spec_put)
qed

section \<open>The claims\<close>

text \<open>
  Claim C5 (capacity invariant). For every capacity the constructor accepts and every
  sequence of \<open>get\<close> and \<open>put\<close> calls, \<open>0 \<le> len() \<le> capacity()\<close> holds after the
  calls, in both modules; in the linked-list cache the list has as many nodes as the
  index has keys.
\<close>

theorem C5_capacity_invariant:
  "(LRUCache_init c = Inr s0 \<longrightarrow>
      (\<exists>m. max_size (dll_exec s0 cs) = Some m \<and>
           0 \<le> int (len (dll_exec s0 cs)) \<and> int (len (dll_exec s0 cs)) \<le> m \<and>
           length (entries (dll_exec s0 cs)) = len (dll_exec s0 cs))) \<and>
   (main_init c = Inr t0 \<longrightarrow>
      0 \<le> int (main_len (main_exec t0 cs)) \<and>
      int (main_len (main_exec t0 cs)) \<le> m_max_size (main_exec t0 cs))"
proof (intro conjI impI)
  assume "LRUCache_init c = Inr s0"
  from init_inv[OF this] obtain n where "cache_inv s0" "max_size s0 = Some n" by auto
  from exec_refines[OF this, of cs]
  have inv: "cache_inv (dll_exec s0 cs)" and m: "max_size (dll_exec s0 cs) = Some n" by simp_all
  from cache_invD(7)[OF inv] m length_entries[OF inv]
  show "\<exists>m. max_size (dll_exec s0 cs) = Some m \<and>
           0 \<le> int (len (dll_exec s0 cs)) \<and> int (len (dll_exec s0 cs)) \<le> m \<and>
           length (entries (dll_exec s0 cs)) = len (dll_exec s0 cs)"
    by (simp add: len_def)
next
  assume "main_init c = Inr t0"
  then have "main_inv t0" using main_init_inv by blast
  from main_exec_inv[OF this, of cs]
  show "0 \<le> int (main_len (main_exec t0 cs))"
    and "int (main_len (main_exec t0 cs)) \<le> m_max_size (main_exec t0 cs)"
    by (simp_all add: main_inv_def main_len_def)
qed

theorem C5_capacity_invariant_witness:
  "LRUCache_init (PyInt 2) = Inr cache2 \<and> main_init (PyInt 2) = Inr main_cache2 \<and>
   (\<exists>m. max_size (dll_exec cache2 scenario) = Some m \<and>
        0 \<le> int (len (dll_exec cache2 scenario)) \<and> int (len (dll_exec cache2 scenario)) \<le> m \<and>
        length (entries (dll_exec cache2 scenario)) = len (dll_exec cache2 scenario)) \<and>
   0 \<le> int (main_len (main_exec main_cache2 scenario)) \<and>
   int (main_len (main_exec main_cache2 scenario)) \<le> m_max_size (main_exec main_cache2 scenario)"
  using C5_capacity_invariant[of "PyInt 2" cache2 scenario main_cache2]
  by (simp add: LRUCache_init_def cache2_def main_init_def main_cache2_def)

text \<open>
  Claim C7 (miss purity). For a key that is not in the cache, \<open>get(k)\<close> without a default
  raises \<open>KeyError\<close> (the specification's \<open>KeyNotFoundError\<close>) and \<open>get(k, d)\<close> returns
  \<open>d\<close>; in both cases the cache after the call is the cache before it, and nothing else
  is raised. This holds in both modules, for every state; for a state of the linked-list
  cache reached from a new cache, a key outside the recency list is such a key.
\<close>

theorem C7_miss_purity:
  "(k \<notin> set (map fst (dict s)) \<longrightarrow>
      get s k None = (Raise KeyError, s) \<and> get s k (Some d) = (Value d, s)) \<and>
   (LRUCache_init c = Inr s0 \<longrightarrow> k \<notin> set (keys (dll_exec s0 cs)) \<longrightarrow>
      get (dll_exec s0 cs) k None = (Raise KeyError, dll_exec s0 cs) \<and>
      get (dll_exec s0 cs) k (Some d) = (Value d, dll_exec s0 cs)) \<and>
   (k \<notin> set (map fst (m_dict t)) \<longrightarrow>
      main_get t k None = (Raise KeyError, t) \<and> main_get t k (Some d) = (Value d, t))"
proof (intro conjI impI)
  assume "k \<notin> set (map fst (dict s))"
  then have "map_of (dict s) k = None" by (simp add: map_of_eq_None_iff)
  then show "get s k None = (Raise KeyError, s)" "get s k (Some d) = (Value d, s)"
    by (rule get_miss)+
next
  assume i: "LRUCache_init c = Inr s0" and k: "k \<notin> set (keys (dll_exec s0 cs))"
  from index_keys[OF reach_inv(1)[OF i, of cs]] k
  have "map_of (dict (dll_exec s0 cs)) k = None" by (simp add: map_of_eq_None_iff)
  then show "get (dll_exec s0 cs) k None = (Raise KeyError, dll_exec s0 cs)"
    "get (dll_exec s0 cs) k (Some d) = (Value d, dll_exec s0 cs)"
    by (rule get_miss)+
next
  assume "k \<notin> set (map fst (m_dict t))"
  then have "map_of (m_dict t) k = None" by (simp add: map_of_eq_None_iff)
  then show "main_get t k None = (Raise KeyError, t)" "main_get t k (Some d) = (Value d, t)"
    by (simp_all add: main_get_def)
qed

theorem C7_miss_purity_witness:
  "10 \<notin> set (map fst (dict (dll_exec cache2 scenario))) \<and>
   LRUCache_init (PyInt 2) = Inr cache2 \<and> 10 \<notin> set (keys (dll_exec cache2 scenario)) \<and>
   10 \<notin> set (map fst (m_dict (main_exec main_cache2 scenario))) \<and>
   get (dll_exec cache2 scenario) 10 None = (Raise KeyError, dll_exec cache2 scenario) \<and>
   get (dll_exec cache2 scenario) 10 (Some 0) = (Value 0, dll_exec cache2 scenario) \<and>
   main_get (main_exec main_cache2 scenario) 10 None = (Raise KeyError, main_exec main_cache2 scenario) \<and>
   main_get (main_exec main_cache2 scenario) 10 (Some 0) = (Value 0, main_exec main_cache2 scenario)"
proof -
  have h1: "10 \<notin> set (map fst (dict (dll_exec cache2 scenario)))" by code_simp
  have h2: "LRUCache_init (PyInt 2) = Inr cache2" by (simp add: LRUCache_init_def cache2_def)
  have h3: "10 \<notin> set (keys (dll_exec cache2 scenario))" by code_simp
  have h4: "10 \<notin> set (map fst (m_dict (main_exec main_cache2 scenario)))" by code_simp
  from C7_miss_purity[of 10 "dll_exec cache2 scenario" 0 "PyInt 2" cache2 scenario
      "main_exec main_cache2 scenario"] h1 h2 h3 h4
  show ?thesis by blast
qed

text \<open>
  Claim C8 (construction). The constructor fails exactly when its argument is not a
  positive integer (\<open>True\<close> is the integer \<open>1\<close> in Python), with \<open>TypeError\<close> for a
  non-integer and \<open>ValueError\<close> for an integer that is not positive (together the
  specification's \<open>InvalidCapacityError\<close>); a failure yields no cache. On success the
  cache is empty, its capacity is the integer passed (\<open>1\<close> for \<open>True\<close>), and no sequence
  of calls changes it.
\<close>

theorem C8_constructor:
  "((\<exists>e. (LRUCache_init c :: error + ('k, 'v) LRUCache) = Inl e) =
      (\<not> ((\<exists>n. 0 < n \<and> c = PyInt n) \<or> c = PyBool True))) \<and>
   (\<forall>e. (LRUCache_init c :: error + ('k, 'v) LRUCache) = Inl e \<longrightarrow> e = TypeError \<or> e = ValueError) \<and>
   (LRUCache_init c = Inr (s0 :: ('k, 'v) LRUCache) \<longrightarrow>
      (\<forall>n. c = PyInt n \<longrightarrow> max_size s0 = Some n \<and> max_size (dll_exec s0 cs) = Some n) \<and>
      (\<forall>b. c = PyBool b \<longrightarrow> max_size s0 = Some 1 \<and> max_size (dll_exec s0 cs) = Some 1) \<and>
      ((\<exists>n. c = PyInt n) \<or> (\<exists>b. c = PyBool b)) \<and>
      dict s0 = [] \<and> entries s0 = [] \<and> len s0 = 0 \<and>
      max_size (dll_exec s0 cs) = max_size s0) \<and>
   ((\<exists>e. (main_init c :: error + ('k, 'v) main_LRUCache) = Inl e) =
      (\<not> ((\<exists>n. 0 < n \<and> c = PyInt n) \<or> c = PyBool True))) \<and>
   (\<forall>e. (main_init c :: error + ('k, 'v) main_LRUCache) = Inl e \<longrightarrow> e = TypeError \<or> e = ValueError) \<and>
   (main_init c = Inr (t0 :: ('k, 'v) main_LRUCache) \<longrightarrow>
      (\<forall>n. c = PyInt n \<longrightarrow> m_max_size t0 = n \<and> m_max_size (main_exec t0 cs) = n) \<and>
      (\<forall>b. c = PyBool b \<longrightarrow> m_max_size t0 = 1 \<and> m_max_size (main_exec t0 cs) = 1) \<and>
      ((\<exists>n. c = PyInt n) \<or> (\<exists>b. c = PyBool b)) \<and>
      m_dict t0 = [] \<and> main_len t0 = 0 \<and>
      m_max_size (main_exec t0 cs) = m_max_size t0)"
proof (intro conjI impI allI)
  show "(\<exists>e. (LRUCache_init c :: error + ('k, 'v) LRUCache) = Inl e) =
      (\<not> ((\<exists>n. 0 < n \<and> c = PyInt n) \<or> c = PyBool True))"
    by (cases c) (auto simp: LRUCache_init_def)
  show "(\<exists>e. (main_init c :: error + ('k, 'v) main_LRUCache) = Inl e) =
      (\<not> ((\<exists>n. 0 < n \<and> c = PyInt n) \<or> c = PyBool True))"
    by (cases c) (auto simp: main_init_def)
next
  fix e assume "(LRUCache_init c :: error + ('k, 'v) LRUCache) = Inl e"
  then show "e = TypeError \<or> e = ValueError"
    by (auto simp: LRUCache_init_def split: option.splits if_splits)
next
  fix e assume "(main_init c :: error + ('k, 'v) main_LRUCache) = Inl e"
  then show "e = TypeError \<or> e = ValueError"
    by (auto simp: main_init_def split: option.splits if_splits)
next
  assume i: "LRUCache_init c = Inr s0"
  from init_inv[OF i] show "dict s0 = []" "entries s0 = []" "len s0 = 0"
    by (auto simp: len_def)
  show keep: "max_size (dll_exec s0 cs) = max_size s0" by (rule reach_inv(2)[OF i])
  from i show "(\<exists>n. c = PyInt n) \<or> (\<exists>b. c = PyBool b)"
    by (cases c) (auto simp: LRUCache_init_def)
  {
    fix n assume "c = PyInt n"
    with i show "max_size s0 = Some n"
      by (auto simp: LRUCache_init_def split: if_splits)
    then show "max_size (dll_exec s0 cs) = Some n" by (simp add: keep)
  }
  {
    fix b assume "c = PyBool b"
    with i show "max_size s0 = Some 1"
      by (auto simp: LRUCache_init_def split: if_splits)
    then show "max_size (dll_exec s0 cs) = Some 1" by (simp add: keep)
  }
next
  assume i: "main_init c = Inr t0"
  from main_init_inv[OF i] show "m_dict t0 = []" "main_len t0 = 0"
    by (simp_all add: main_len_def)
  from main_init_inv[OF i] main_exec_inv[of t0 cs]
  show keep: "m_max_size (main_exec t0 cs) = m_max_size t0" by simp
  from i show "(\<exists>n. c = PyInt n) \<or> (\<exists>b. c = PyBool b)"
    by (cases c) (auto simp: main_init_def)
  {
    fix n assume "c = PyInt n"
    with i show "m_max_size t0 = n"
      by (auto simp: main_init_def split: if_splits)
    then show "m_max_size (main_exec t0 cs) = n" by (simp add: keep)
  }
  {
    fix b assume "c = PyBool b"
    with i show "m_max_size t0 = 1"
      by (auto simp: main_init_def split: if_splits)
    then show "m_max_size (main_exec t0 cs) = 1" by (simp add: keep)
  }
qed

theorem C8_constructor_witness:
  "LRUCache_init (PyInt 2) = Inr cache2 \<and> main_init (PyInt 2) = Inr main_cache2 \<and>
   max_size cache2 = Some 2 \<and> max_size (dll_exec cache2 scenario) = Some 2 \<and>
   m_max_size main_cache2 = 2 \<and> m_max_size (main_exec main_cache2 scenario) = 2"
proof -
  have h1: "LRUCache_init (PyInt 2) = Inr cache2" by (simp add: LRUCache_init_def cache2_def)
  have h2: "main_init (PyInt 2) = Inr main_cache2" by (simp add: main_init_def main_cache2_def)
  from C8_constructor[of "PyInt 2" cache2 scenario main_cache2] h1 h2
  show ?thesis by blast
qed

lemma constructor_examples:
  "(LRUCache_init (PyInt 0) :: error + (nat, nat) LRUCache) = Inl ValueError"
  "(LRUCache_init (PyInt (-1)) :: error + (nat, nat) LRUCache) = Inl ValueError"
  "(LRUCache_init (PyFloat (5 / 2)) :: error + (nat, nat) LRUCache) = Inl TypeError"
  "(LRUCache_init PyNone :: error + (nat, nat) LRUCache) = Inl TypeError"
  "(main_init (PyInt 0) :: error + (nat, nat) main_LRUCache) = Inl ValueError"
  "(main_init (PyInt (-1)) :: error + (nat, nat) main_LRUCache) = Inl ValueError"
  "(main_init (PyFloat (5 / 2)) :: error + (nat, nat) main_LRUCache) = Inl TypeError"
  "(main_init (PyStr ''2'') :: error + (nat, nat) main_LRUCache) = Inl TypeError"
  by (simp_all add: LRUCache_init_def main_init_def)

text \<open>
  Claim C9 (the empty-list error). For a well-formed list, \<open>pop_back\<close> and \<open>pop_front\<close>
  raise \<open>IsEmptyError\<close> (the specification's \<open>EmptyError\<close>) exactly when the list has
  no node, and they raise nothing else. Through \<open>get\<close> and \<open>put\<close> the error is
  unreachable: no call of a sequence on a new cache raises it, \<open>put\<close> always returns
  normally, and whenever the cache is full the list is non-empty, so the \<open>pop_back\<close> of
  the eviction succeeds.
\<close>

theorem C9_empty_error_unreachable:
  "(dll h l as \<longrightarrow>
      (pop_back (l, h) = Inl IsEmptyError) = (as = []) \<and>
      (pop_front (l, h) = Inl IsEmptyError) = (as = [])) \<and>
   (\<forall>e. pop_back (l, h) = Inl e \<or> pop_front (l, h) = Inl e \<longrightarrow> e = IsEmptyError) \<and>
   (LRUCache_init c = Inr s0 \<longrightarrow>
      Raise IsEmptyError \<notin> set (dll_outputs s0 cs) \<and>
      fst (put (dll_exec s0 cs) k v) = NoValue \<and>
      (full (dll_exec s0 cs) \<longrightarrow>
         order (dll_exec s0 cs) \<noteq> [] \<and>
         pop_back (dllist (dll_exec s0 cs), heap (dll_exec s0 cs)) \<noteq> Inl IsEmptyError))"
proof (intro conjI impI allI)
  assume d: "dll h l as"
  show "(pop_back (l, h) = Inl IsEmptyError) = (as = [])" by (rule pop_back_empty[OF d])
  show "(pop_front (l, h) = Inl IsEmptyError) = (as = [])" by (rule pop_front_empty[OF d])
next
  fix e assume "pop_back (l, h) = Inl e \<or> pop_front (l, h) = Inl e"
  then show "e = IsEmptyError"
    by (auto simp: pop_back_def pop_front_def split: option.splits)
next
  assume i: "LRUCache_init c = Inr s0"
  note R = reach_inv[OF i, of cs]
  show "Raise IsEmptyError \<notin> set (dll_outputs s0 cs)"
    unfolding R(3) by (rule spec_outputs_no_empty_error)
  from init_inv[OF i] R(2) obtain m where m: "max_size (dll_exec s0 cs) = Some m" by auto
  show "fst (put (dll_exec s0 cs) k v) = NoValue" by (rule put_refines(3)[OF R(1) m])
  {
    assume f: "full (dll_exec s0 cs)"
    show ne: "order (dll_exec s0 cs) \<noteq> []" by (rule full_nonempty[OF R(1) f])
    from pop_back_empty[OF cache_invD(1)[OF R(1)]] ne
    show "pop_back (dllist (dll_exec s0 cs), heap (dll_exec s0 cs)) \<noteq> Inl IsEmptyError" by simp
  }
qed

theorem C9_empty_error_unreachable_witness:
  "dll (heap (dll_exec cache2 scenario)) (dllist (dll_exec cache2 scenario)) [0, 2] \<and>
   LRUCache_init (PyInt 2) = Inr cache2 \<and> full (dll_exec cache2 scenario) \<and>
   pop_back (dllist (dll_exec cache2 scenario), heap (dll_exec cache2 scenario)) \<noteq> Inl IsEmptyError \<and>
   pop_front (dllist (dll_exec cache2 scenario), heap (dll_exec cache2 scenario)) \<noteq> Inl IsEmptyError \<and>
   Raise IsEmptyError \<notin> set (dll_outputs cache2 scenario) \<and>
   order (dll_exec cache2 scenario) \<noteq> []"
proof -
  have h1: "dll (heap (dll_exec cache2 scenario)) (dllist (dll_exec cache2 scenario)) [0, 2]"
    by code_simp
  have h2: "LRUCache_init (PyInt 2) = Inr cache2" by (simp add: LRUCache_init_def cache2_def)
  have h3: "full (dll_exec cache2 scenario)" by code_simp
  from C9_empty_error_unreachable[of "heap (dll_exec cache2 scenario)"
      "dllist (dll_exec cache2 scenario)" "[0, 2]" "PyInt 2" cache2 scenario] h1 h2 h3
  show ?thesis by simp
qed

text \<open>
  Claim C6 (consistency of index and list). In every state of the linked-list cache
  reached from a new cache, the list is well formed, the keys of the index are the keys
  stored in the nodes of the list, no key occurs twice, every index entry refers to the
  node of the list that holds its key, and the node of every key is the one the index
  gives for it; \<open>get\<close> and \<open>put\<close> lead to states with the same invariant.
\<close>

theorem C6_index_list_consistency:
  "LRUCache_init c = Inr s0 \<Longrightarrow> s = dll_exec s0 cs \<Longrightarrow>
     dll (heap s) (dllist s) (order s) \<and>
     keys s = map (\<lambda>a. item_key (data (heap s ! a))) (order s) \<and>
     set (map fst (dict s)) = set (keys s) \<and>
     distinct (keys s) \<and> distinct (map fst (dict s)) \<and>
     (\<forall>(k, a)\<in>set (dict s). a \<in> set (order s) \<and> item_key (data (heap s ! a)) = k) \<and>
     (\<forall>a\<in>set (order s). map_of (dict s) (item_key (data (heap s ! a))) = Some a) \<and>
     cache_inv s \<and> cache_inv (snd (get s k d)) \<and> cache_inv (snd (put s k v))"
proof -
  assume i: "LRUCache_init c = Inr s0" and s: "s = dll_exec s0 cs"
  have inv: "cache_inv s" unfolding s by (rule reach_inv(1)[OF i])
  from init_inv[OF i] reach_inv(2)[OF i, of cs] obtain m where m: "max_size s = Some m"
    unfolding s by auto
  note D = cache_invD[OF inv]
  have "distinct (keys s)" using D(2) by (simp add: keys_map)
  with D(1) D(3) D(4) D(5) inv index_keys[OF inv] get_refines(1)[OF inv] put_refines(1)[OF inv m]
  show ?thesis by (simp add: keys_map)
qed

theorem C6_index_list_consistency_witness:
  "LRUCache_init (PyInt 2) = Inr cache2 \<and>
   dict (dll_exec cache2 scenario) = [(1, 0), (100, 2)] \<and>
   order (dll_exec cache2 scenario) = [0, 2] \<and>
   keys (dll_exec cache2 scenario) = [1, 100] \<and>
   set (map fst (dict (dll_exec cache2 scenario))) = set (keys (dll_exec cache2 scenario)) \<and>
   distinct (keys (dll_exec cache2 scenario)) \<and>
   distinct (map fst (dict (dll_exec cache2 scenario))) \<and>
   cache_inv (dll_exec cache2 scenario) \<and>
   cache_inv (snd (get (dll_exec cache2 scenario) 1 None)) \<and>
   cache_inv (snd (put (dll_exec cache2 scenario) 1 8))"
proof -
  have h: "LRUCache_init (PyInt 2) = Inr cache2" by (simp add: LRUCache_init_def cache2_def)
  have e1: "dict (dll_exec cache2 scenario) = [(1, 0), (100, 2)]" by code_simp
  have e2: "order (dll_exec cache2 scenario) = [0, 2]" by code_simp
  have e3: "keys (dll_exec cache2 scenario) = [1, 100]" by code_simp
  from C6_index_list_consistency[OF h refl, of scenario 1 None 8] h e1 e2 e3
  show ?thesis by blast
qed

text \<open>
  Claim C10 (a hit ignores the default). For a key that is in the cache, \<open>get(k, d)\<close>
  does what \<open>get(k)\<close> does: it returns the cached value, not \<open>d\<close>, and moves the key to
  the most recently used position; in both modules.
\<close>

theorem C10_hit_ignores_default:
  "(LRUCache_init c = Inr s0 \<longrightarrow> s = dll_exec s0 cs \<longrightarrow> map_of (entries s) k = Some v \<longrightarrow>
      get s k (Some d) = get s k None \<and> fst (get s k (Some d)) = Value v \<and>
      entries (snd (get s k (Some d))) = (k, v) # AList.delete k (entries s) \<and>
      hd (keys (snd (get s k (Some d)))) = k) \<and>
   (map_of (m_dict t) k = Some v \<longrightarrow>
      main_get t k (Some d) = main_get t k None \<and> fst (main_get t k (Some d)) = Value v \<and>
      main_entries (snd (main_get t k (Some d))) = (k, v) # AList.delete k (main_entries t) \<and>
      hd (main_keys (snd (main_get t k (Some d)))) = k)"
proof (intro conjI impI)
  assume i: "LRUCache_init c = Inr s0" and s: "s = dll_exec s0 cs"
    and hit: "map_of (entries s) k = Some v"
  have inv: "cache_inv s" unfolding s by (rule reach_inv(1)[OF i])
  from hit present_iff[OF inv, of k] obtain a where a: "map_of (dict s) k = Some a" by auto
  show "get s k (Some d) = get s k None" using a by (simp add: get_def)
  from get_refines[OF inv, of k "Some d"] hit
  show "fst (get s k (Some d)) = Value v"
    and e: "entries (snd (get s k (Some d))) = (k, v) # AList.delete k (entries s)"
    by (simp_all add: spec_result_def spec_get_def)
  show "hd (keys (snd (get s k (Some d)))) = k" by (simp add: keys_def e)
next
  assume hit: "map_of (m_dict t) k = Some v"
  note G = main_get_hit[OF hit]
  show "main_get t k (Some d) = main_get t k None" by (simp add: G)
  show "fst (main_get t k (Some d)) = Value v" by (simp add: G)
  show "main_entries (snd (main_get t k (Some d))) = (k, v) # AList.delete k (main_entries t)"
    by (simp add: G main_entries_def rev_delete)
  show "hd (main_keys (snd (main_get t k (Some d)))) = k"
    by (simp add: G main_keys_def main_entries_def)
qed

theorem C10_hit_ignores_default_witness:
  "LRUCache_init (PyInt 2) = Inr cache2 \<and>
   map_of (entries (dll_exec cache2 scenario)) 100 = Some 200 \<and>
   map_of (m_dict (main_exec main_cache2 scenario)) 100 = Some 200 \<and>
   get (dll_exec cache2 scenario) 100 (Some 0) = get (dll_exec cache2 scenario) 100 None \<and>
   fst (get (dll_exec cache2 scenario) 100 (Some 0)) = Value 200 \<and>
   hd (keys (snd (get (dll_exec cache2 scenario) 100 (Some 0)))) = 100 \<and>
   fst (main_get (main_exec main_cache2 scenario) 100 (Some 0)) = Value 200 \<and>
   hd (main_keys (snd (main_get (main_exec main_cache2 scenario) 100 (Some 0)))) = 100"
proof -
  have h1: "LRUCache_init (PyInt 2) = Inr cache2" by (simp add: LRUCache_init_def cache2_def)
  have h2: "map_of (entries (dll_exec cache2 scenario)) 100 = Some 200" by code_simp
  have h3: "map_of (m_dict (main_exec main_cache2 scenario)) 100 = Some 200" by code_simp
  from C10_hit_ignores_default[of "PyInt 2" cache2 "dll_exec cache2 scenario" scenario 100 200 0
      "main_exec main_cache2 scenario"] h1 h2 h3
  show ?thesis by blast
qed

text \<open>
  Claim C2 (\<open>put\<close> on a present key). The claim: \<open>put(k, v)\<close> on a present key replaces
  the value, moves \<open>k\<close> to the front, leaves the entry count unchanged and evicts nothing,
  full or not. The linked-list cache does so (\<open>dll_put_present\<close>). \<open>put\<close> of
  \<open>src/main.py\<close> has no case for a present key: on the full cache of capacity 2 holding
  the keys 1 and 10, \<open>put(10, 30)\<close> evicts key 1 and the count drops from 2 to 1.
\<close>

theorem C2_main_put_present_evicts:
  "main_init (PyInt 2) = Inr main_cache2 \<and>
   main_entries (main_exec main_cache2 [Put 1 2, Put 10 20]) = [(10, 20), (1, 2)] \<and>
   main_entries (snd (main_put (main_exec main_cache2 [Put 1 2, Put 10 20]) 10 30)) = [(10, 30)] \<and>
   main_len (main_exec main_cache2 [Put 1 2, Put 10 20]) = 2 \<and>
   main_len (snd (main_put (main_exec main_cache2 [Put 1 2, Put 10 20]) 10 30)) = 1 \<and>
   entries (snd (put (dll_exec cache2 [Put 1 2, Put 10 20]) 10 30)) = [(10, 30), (1, 2)]"
  by (intro conjI; code_simp)

text \<open>
  Claim C4 (the accessed key is the most recently used). The claim: after a hit of
  \<open>get(k)\<close> or any \<open>put(k, v)\<close>, \<open>k\<close> is at the front of the recency order, until another
  key is accessed. The linked-list cache does so (\<open>dll_front_after_access\<close>,
  \<open>dll_front_stays\<close>). In \<open>src/main.py\<close>, \<open>put\<close> on a present key of a cache that is not
  full replaces the value where the key stands: after \<open>put(1, 10)\<close>, \<open>put(2, 20)\<close>,
  \<open>put(1, 11)\<close> at capacity 3 the most recently used key is still 2.
\<close>

theorem C4_main_put_present_not_front:
  "main_init (PyInt 3) = Inr main_cache3 \<and>
   main_keys (main_exec main_cache3 [Put 1 10, Put 2 20]) = [2, 1] \<and>
   main_entries (snd (main_put (main_exec main_cache3 [Put 1 10, Put 2 20]) 1 11)) =
     [(2, 20), (1, 11)] \<and>
   keys (snd (put (dll_exec cache3 [Put 1 10, Put 2 20]) 1 11)) = [1, 2]"
  by (intro conjI; code_simp)

text \<open>
  Claim C1 (eviction of the least recently used key). The claim: \<open>put\<close> of an absent
  key on a full cache removes exactly one entry, the least recently accessed one. The
  linked-list cache does so (\<open>dll_put_full_evicts_lru\<close>). The cache of \<open>src/main.py\<close>
  removes exactly one entry, the first key of its dict, which is not the least recently
  accessed one once a key has been \<open>put\<close> twice: after the calls \<open>reput\<close> at capacity 3,
  \<open>put(4, 40)\<close> removes key 1, accessed by the third call, and keeps key 2, last accessed
  by the second.
\<close>

theorem C1_main_evicts_recently_used:
  "main_init (PyInt 3) = Inr main_cache3 \<and>
   main_keys (main_exec main_cache3 reput) = [3, 2, 1] \<and>
   main_full (main_exec main_cache3 reput) \<and>
   4 \<notin> set (main_keys (main_exec main_cache3 reput)) \<and>
   main_keys (snd (main_put (main_exec main_cache3 reput) 4 40)) = [4, 3, 2] \<and>
   last_access reput 1 = 3 \<and> last_access reput 2 = 2 \<and> last_access reput 3 = 4 \<and>
   keys (snd (put (dll_exec cache3 reput) 4 40)) = [4, 3, 1]"
  by (intro conjI; code_simp)

text \<open>
  Claim C3 (the two modules are observationally equivalent). They are while no \<open>put\<close>
  is made on a present key (\<open>variants_agree_without_put_hits\<close>). They differ otherwise:
  at capacity 2, after \<open>put(1, 2)\<close>, \<open>put(10, 20)\<close>, \<open>put(10, 30)\<close> the call \<open>get(1)\<close>
  returns 2 from the linked-list cache and raises \<open>KeyError\<close> in \<open>src/main.py\<close>.
\<close>

theorem C3_variants_differ:
  "LRUCache_init (PyInt 2) = Inr cache2 \<and> main_init (PyInt 2) = Inr main_cache2 \<and>
   dll_outputs cache2 [Put 1 2, Put 10 20, Put 10 30, Get 1] =
     [NoValue, NoValue, NoValue, Value 2] \<and>
   main_outputs main_cache2 [Put 1 2, Put 10 20, Put 10 30, Get 1] =
     [NoValue, NoValue, NoValue, Raise KeyError]"
  by (intro conjI; code_simp)

end
